theory Spec2Isabelle
  imports
    Complex_Main
    "HOL-Library.AList"
    "HOL-Library.Char_ord"
    "HOL-Library.List_Lexorder"
    "HOL-Library.Product_Lexorder"
begin

section \<open>Data model\<close>

text \<open>
  The Python objects of \<^verbatim>\<open>mind_model\<close> are mutable and shared by reference, so
  concepts and feature ensembles live in an explicit object store. A reference is an
  address; \<^verbatim>\<open>uuid.uuid4()\<close> draws the next element of an arbitrary sequence carried
  by the store. Python floats are read as real numbers (exact arithmetic); Python
  dictionaries are association lists in insertion order, updated with
  \<^const>\<open>AList.update\<close> (replace in place, else append) and read with
  \<^const>\<open>map_of\<close>.
\<close>

type_synonym uuid = nat
type_synonym ref = nat

datatype py_error = KeyError | ValueError | ZeroDivisionError

record RelationshipEdge =
  relation_type :: string
  target_concept_id :: uuid
  r_description :: string

record FeatureEnsemble =
  e_name :: string
  modality :: string
  vector :: "real list"
  e_description :: string
  activation :: real
  ensemble_id :: uuid
  links :: "(uuid \<times> real) list"

record Concept =
  concept_id :: uuid
  c_name :: string
  c_description :: string
  metadata :: "(string \<times> string) list"
  ensembles_by_id :: "(uuid \<times> ref) list"
  ensembles_by_name :: "(string \<times> uuid) list"
  relationships :: "RelationshipEdge list"
  inhibition_gain :: real
  activation_threshold :: real

record heap =
  ens_heap :: "ref \<Rightarrow> FeatureEnsemble"
  con_heap :: "ref \<Rightarrow> Concept"
  next_ref :: ref
  uuid_src :: "nat \<Rightarrow> uuid"
  uuid_idx :: nat

definition uuid4 :: "heap \<Rightarrow> uuid \<times> heap" where
  "uuid4 h = (uuid_src h (uuid_idx h), h\<lparr>uuid_idx := Suc (uuid_idx h)\<rparr>)"

definition upd_ens :: "ref \<Rightarrow> (FeatureEnsemble \<Rightarrow> FeatureEnsemble) \<Rightarrow> heap \<Rightarrow> heap" where
  "upd_ens r f h = h\<lparr>ens_heap := (ens_heap h)(r := f (ens_heap h r))\<rparr>"

definition upd_con :: "ref \<Rightarrow> (Concept \<Rightarrow> Concept) \<Rightarrow> heap \<Rightarrow> heap" where
  "upd_con r f h = h\<lparr>con_heap := (con_heap h)(r := f (con_heap h r))\<rparr>"

section \<open>feature\_ensemble.py\<close>

text \<open>The dataclass constructor: a fresh object with a fresh identity and no links.\<close>

definition new_FeatureEnsemble ::
  "string \<Rightarrow> string \<Rightarrow> real list \<Rightarrow> string \<Rightarrow> heap \<Rightarrow> ref \<times> heap" where
  "new_FeatureEnsemble nm md vec descr h =
     (let (u, h1) = uuid4 h; r = next_ref h1
      in (r, h1\<lparr>ens_heap := (ens_heap h1)(r :=
                  \<lparr>e_name = nm, modality = md, vector = vec, e_description = descr,
                   activation = 0, ensemble_id = u, links = []\<rparr>),
                next_ref := Suc r\<rparr>))"

definition cosine :: "real list \<Rightarrow> real list \<Rightarrow> real" where
  "cosine a b =
     (if a = [] \<or> b = [] \<or> length a \<noteq> length b then 0
      else let dot = (\<Sum>(x, y)\<leftarrow>zip a b. x * y);
               na = sqrt (\<Sum>x\<leftarrow>a. x * x);
               nb = sqrt (\<Sum>y\<leftarrow>b. y * y)
           in if na = 0 \<or> nb = 0 then 0 else dot / (na * nb))"

definition similarity :: "FeatureEnsemble \<Rightarrow> real list \<Rightarrow> real" where
  "similarity e cue_vector = cosine (vector e) cue_vector"

definition get_default :: "('k \<times> real) list \<Rightarrow> 'k \<Rightarrow> real" where
  "get_default d k = (case map_of d k of None \<Rightarrow> 0 | Some v \<Rightarrow> v)"

definition add_link :: "ref \<Rightarrow> uuid \<Rightarrow> real \<Rightarrow> heap \<Rightarrow> heap" where
  "add_link r target_id weight h =
     upd_ens r (\<lambda>e. e\<lparr>links := AList.update target_id (get_default (links e) target_id + weight)
                                  (links e)\<rparr>) h"

definition ensemble_decay :: "ref \<Rightarrow> real \<Rightarrow> heap \<Rightarrow> heap" where
  "ensemble_decay r fraction h =
     (let f = max 0 (min 1 fraction)
      in upd_ens r (\<lambda>e. e\<lparr>activation := activation e * (1 - f)\<rparr>) h)"

text \<open>One iteration of the loop of \<^verbatim>\<open>hebbian\<close>; the activation is read at each step.\<close>

definition hebbian_step :: "real \<Rightarrow> uuid \<Rightarrow> FeatureEnsemble \<Rightarrow> FeatureEnsemble" where
  "hebbian_step learning_rate t e =
     (if t = ensemble_id e then e
      else e\<lparr>links := AList.update t (get_default (links e) t + learning_rate * activation e)
                         (links e)\<rparr>)"

definition hebbian :: "ref \<Rightarrow> uuid list \<Rightarrow> real \<Rightarrow> heap \<Rightarrow> heap" where
  "hebbian r coactive_ids learning_rate h =
     upd_ens r (\<lambda>e. fold (hebbian_step learning_rate) coactive_ids e) h"

section \<open>concept.py: construction and lookup\<close>

text \<open>\<^verbatim>\<open>metadata or {"version": "3.0"}\<close>: an empty dictionary is falsy.\<close>

definition new_Concept ::
  "string \<Rightarrow> string \<Rightarrow> (string \<times> string) list option \<Rightarrow> real \<Rightarrow> real \<Rightarrow> heap \<Rightarrow> ref \<times> heap" where
  "new_Concept nm descr md ig thr h =
     (let (u, h1) = uuid4 h; r = next_ref h1
      in (r, h1\<lparr>con_heap := (con_heap h1)(r :=
                  \<lparr>concept_id = u, c_name = nm, c_description = descr,
                   metadata = (case md of None \<Rightarrow> [(''version'', ''3.0'')]
                               | Some m \<Rightarrow> if m = [] then [(''version'', ''3.0'')] else m),
                   ensembles_by_id = [], ensembles_by_name = [], relationships = [],
                   inhibition_gain = ig, activation_threshold = thr\<rparr>),
                next_ref := Suc r\<rparr>))"

definition add_ensemble :: "ref \<Rightarrow> ref \<Rightarrow> heap \<Rightarrow> heap" where
  "add_ensemble c e h =
     (let ens = ens_heap h e
      in upd_con c (\<lambda>k. k\<lparr>ensembles_by_id := AList.update (ensemble_id ens) e (ensembles_by_id k),
                          ensembles_by_name :=
                            AList.update (e_name ens) (ensemble_id ens) (ensembles_by_name k)\<rparr>) h)"

definition get_ensemble :: "heap \<Rightarrow> ref \<Rightarrow> string \<Rightarrow> ref option" where
  "get_ensemble h c nm =
     (case map_of (ensembles_by_name (con_heap h c)) nm of
        None \<Rightarrow> None
      | Some e_id \<Rightarrow> map_of (ensembles_by_id (con_heap h c)) e_id)"

definition add_relationship :: "ref \<Rightarrow> string \<Rightarrow> uuid \<Rightarrow> string \<Rightarrow> heap \<Rightarrow> heap" where
  "add_relationship c rt target descr h =
     upd_con c (\<lambda>k. k\<lparr>relationships := relationships k @
        [\<lparr>relation_type = rt, target_concept_id = target, r_description = descr\<rparr>]\<rparr>) h"

section \<open>concept.py: activation, inhibition and learning\<close>

text \<open>A statement that may raise returns the exception, or its value, beside the store.\<close>

type_synonym 'a outcome = "(py_error + 'a) \<times> heap"

definition ensemble_refs :: "heap \<Rightarrow> ref \<Rightarrow> ref list" where
  "ensemble_refs h c = map snd (ensembles_by_id (con_heap h c))"

definition lateral_inhibition :: "ref \<Rightarrow> heap \<Rightarrow> unit outcome" where
  "lateral_inhibition c h =
     (let total = (\<Sum>r\<leftarrow>ensemble_refs h c. max 0 (activation (ens_heap h r)))
      in if total \<le> 1 / 10 ^ 9 then (Inr (), h)
         else let denom = 1 + inhibition_gain (con_heap h c) * total
              in if denom = 0 \<and> ensemble_refs h c \<noteq> [] then (Inl ZeroDivisionError, h)
                 else (Inr (), fold (\<lambda>r. upd_ens r (\<lambda>e. e\<lparr>activation := activation e / denom\<rparr>))
                                    (ensemble_refs h c) h))"

definition decay_all :: "ref \<Rightarrow> real \<Rightarrow> heap \<Rightarrow> heap" where
  "decay_all c fraction h = fold (\<lambda>r. ensemble_decay r fraction) (ensemble_refs h c) h"

definition learn_hebbian :: "ref \<Rightarrow> real \<Rightarrow> real option \<Rightarrow> heap \<Rightarrow> heap" where
  "learn_hebbian c learning_rate min_activation h =
     (let thr = (case min_activation of None \<Rightarrow> activation_threshold (con_heap h c)
                 | Some m \<Rightarrow> m);
          coactive_ids = map fst [(eid, r) \<leftarrow> ensembles_by_id (con_heap h c).
                                    activation (ens_heap h r) \<ge> thr]
      in fold (\<lambda>r h'. if activation (ens_heap h' r) \<ge> thr
                       then hebbian r coactive_ids learning_rate h' else h')
              (ensemble_refs h c) h)"

text \<open>Stage 1 of \<^verbatim>\<open>stimulate\<close>: direct activation from the cues.\<close>

definition direct_activation :: "ref \<Rightarrow> (string \<times> real list) list \<Rightarrow> real \<Rightarrow> heap \<Rightarrow> heap" where
  "direct_activation c cues gain h =
     fold (\<lambda>(nm, vec) h'. case get_ensemble h' c nm of
                              None \<Rightarrow> h'
                            | Some r \<Rightarrow> upd_ens r (\<lambda>e. e\<lparr>activation := activation e
                                                          + gain * similarity e vec\<rparr>) h')
          cues h"

text \<open>
  Stage 2, first half: the dictionary \<^verbatim>\<open>delta\<close>, started at zero for every identity
  of the concept and accumulated over the links of every source whose activation is
  positive. No ensemble is written in this half.
\<close>

definition link_deltas :: "real \<Rightarrow> (uuid \<times> real) list \<Rightarrow> (uuid \<times> real) list \<Rightarrow> (uuid \<times> real) list" where
  "link_deltas act lks delta =
     fold (\<lambda>(t_id, w) d. AList.update t_id (get_default d t_id + act * w) d) lks delta"

definition spread_delta :: "heap \<Rightarrow> ref \<Rightarrow> (uuid \<times> real) list" where
  "spread_delta h c =
     fold (\<lambda>(s_id, s_ref) delta.
             if activation (ens_heap h s_ref) \<le> 0 then delta
             else link_deltas (activation (ens_heap h s_ref)) (links (ens_heap h s_ref)) delta)
          (ensembles_by_id (con_heap h c))
          (map (\<lambda>(eid, r). (eid, 0)) (ensembles_by_id (con_heap h c)))"

text \<open>
  Stage 2, second half: \<^verbatim>\<open>self.ensembles_by_id[t_id].activation += d\<close> for every
  entry of \<^verbatim>\<open>delta\<close>; the subscript raises \<^verbatim>\<open>KeyError\<close> on an identity that the
  concept does not hold, and the entries before it stay applied.
\<close>

fun apply_delta :: "ref \<Rightarrow> (uuid \<times> real) list \<Rightarrow> heap \<Rightarrow> unit outcome" where
  "apply_delta c [] h = (Inr (), h)"
| "apply_delta c ((t_id, d) # rest) h =
     (case map_of (ensembles_by_id (con_heap h c)) t_id of
        None \<Rightarrow> (Inl KeyError, h)
      | Some r \<Rightarrow> apply_delta c rest (upd_ens r (\<lambda>e. e\<lparr>activation := activation e + d\<rparr>) h))"

definition spread :: "ref \<Rightarrow> heap \<Rightarrow> unit outcome" where
  "spread c h = apply_delta c (spread_delta h c) h"

text \<open>
  The snapshot returned by \<^verbatim>\<open>stimulate\<close>; \<^verbatim>\<open>round(x, 4)\<close> is the library's and
  is the parameter \<open>round4\<close>.
\<close>

definition snapshot :: "(real \<Rightarrow> real) \<Rightarrow> heap \<Rightarrow> ref \<Rightarrow> (string \<times> real) list" where
  "snapshot round4 h c =
     fold (\<lambda>r d. AList.update (e_name (ens_heap h r)) (round4 (activation (ens_heap h r))) d)
          (ensemble_refs h c) []"

definition stimulate ::
  "(real \<Rightarrow> real) \<Rightarrow> ref \<Rightarrow> (string \<times> real list) list \<Rightarrow> real \<Rightarrow> heap
   \<Rightarrow> (string \<times> real) list outcome" where
  "stimulate round4 c cues gain h =
     (let h1 = direct_activation c cues gain h
      in case spread c h1 of
           (Inl err, h2) \<Rightarrow> (Inl err, h2)
         | (Inr _, h2) \<Rightarrow>
             (case lateral_inhibition c h2 of
                (Inl err, h3) \<Rightarrow> (Inl err, h3)
              | (Inr _, h3) \<Rightarrow> (Inr (snapshot round4 h3 c), h3)))"

section \<open>concept.py: engram input and output\<close>

text \<open>
  An engram is a JSON object; a key that may be missing is an optional field.
  \<^verbatim>\<open>str(uuid)\<close> and \<^verbatim>\<open>uuid.UUID(text)\<close> are the parameters \<open>str_uuid\<close> and
  \<open>parse_uuid\<close>; a text that is no UUID parses to \<open>None\<close>, where Python raises
  \<^verbatim>\<open>ValueError\<close>.
\<close>

record ensemble_json =
  j_ensemble_id :: "string option"
  j_name :: "string option"
  j_modality :: "string option"
  j_vector :: "real list option"
  j_links :: "(string \<times> real) list option"

record relationship_json =
  j_type :: "string option"
  j_target_concept_id :: "string option"
  j_description :: "string option"

record params_json =
  j_inhibition_gain :: "real option"
  j_activation_threshold :: "real option"

record engram =
  g_concept_id :: "string option"
  g_name :: "string option"
  g_description :: "string option"
  g_ensembles :: "ensemble_json list option"
  g_relationships :: "relationship_json list option"
  g_params :: "params_json option"
  g_metadata :: "(string \<times> string) list option"

definition serialize_ensemble :: "(uuid \<Rightarrow> string) \<Rightarrow> FeatureEnsemble \<Rightarrow> ensemble_json" where
  "serialize_ensemble str_uuid e =
     \<lparr>j_ensemble_id = Some (str_uuid (ensemble_id e)),
      j_name = Some (e_name e),
      j_modality = Some (modality e),
      j_vector = Some (vector e),
      j_links = Some (fold (\<lambda>(t, w) d. AList.update (str_uuid t) w d) (links e) [])\<rparr>"

definition serialize_relationship :: "(uuid \<Rightarrow> string) \<Rightarrow> RelationshipEdge \<Rightarrow> relationship_json" where
  "serialize_relationship str_uuid r =
     \<lparr>j_type = Some (relation_type r),
      j_target_concept_id = Some (str_uuid (target_concept_id r)),
      j_description = Some (r_description r)\<rparr>"

definition serialize_engram :: "(uuid \<Rightarrow> string) \<Rightarrow> heap \<Rightarrow> ref \<Rightarrow> engram" where
  "serialize_engram str_uuid h c =
     (let k = con_heap h c
      in \<lparr>g_concept_id = Some (str_uuid (concept_id k)),
          g_name = Some (c_name k),
          g_description = Some (c_description k),
          g_ensembles = Some (map (\<lambda>r. serialize_ensemble str_uuid (ens_heap h r))
                                  (ensemble_refs h c)),
          g_relationships = Some (map (serialize_relationship str_uuid) (relationships k)),
          g_params = Some \<lparr>j_inhibition_gain = Some (inhibition_gain k),
                            j_activation_threshold = Some (activation_threshold k)\<rparr>,
          g_metadata = Some (metadata k)\<rparr>)"

definition get_or :: "'a option \<Rightarrow> 'a \<Rightarrow> 'a" where
  "get_or x d = (case x of None \<Rightarrow> d | Some v \<Rightarrow> v)"

text \<open>The first loop of \<^verbatim>\<open>from_engram\<close>: one new ensemble per entry, its identity
  overwritten by the stored one before it is registered.\<close>

fun load_ensembles :: "(string \<Rightarrow> uuid option) \<Rightarrow> ref \<Rightarrow> ensemble_json list \<Rightarrow> heap \<Rightarrow> unit outcome" where
  "load_ensembles parse_uuid c [] h = (Inr (), h)"
| "load_ensembles parse_uuid c (ed # eds) h =
     (case j_name ed of
        None \<Rightarrow> (Inl KeyError, h)
      | Some nm \<Rightarrow>
          (let (e, h1) = new_FeatureEnsemble nm (get_or (j_modality ed) ''unknown'')
                            (get_or (j_vector ed) []) [] h
           in case j_ensemble_id ed of
                None \<Rightarrow> (Inl KeyError, h1)
              | Some s \<Rightarrow>
                  (case parse_uuid s of
                     None \<Rightarrow> (Inl ValueError, h1)
                   | Some u \<Rightarrow>
                       load_ensembles parse_uuid c eds
                         (add_ensemble c e (upd_ens e (\<lambda>x. x\<lparr>ensemble_id := u\<rparr>) h1)))))"

fun set_links :: "(string \<Rightarrow> uuid option) \<Rightarrow> ref \<Rightarrow> (string \<times> real) list \<Rightarrow> heap \<Rightarrow> unit outcome" where
  "set_links parse_uuid s [] h = (Inr (), h)"
| "set_links parse_uuid s ((t_str, w) # rest) h =
     (case parse_uuid t_str of
        None \<Rightarrow> (Inl ValueError, h)
      | Some t \<Rightarrow> set_links parse_uuid s rest
                    (upd_ens s (\<lambda>e. e\<lparr>links := AList.update t w (links e)\<rparr>) h))"

fun load_links :: "(string \<Rightarrow> uuid option) \<Rightarrow> ref \<Rightarrow> ensemble_json list \<Rightarrow> heap \<Rightarrow> unit outcome" where
  "load_links parse_uuid c [] h = (Inr (), h)"
| "load_links parse_uuid c (ed # eds) h =
     (case j_ensemble_id ed of
        None \<Rightarrow> (Inl KeyError, h)
      | Some s \<Rightarrow>
          (case parse_uuid s of
             None \<Rightarrow> (Inl ValueError, h)
           | Some s_id \<Rightarrow>
               (case map_of (ensembles_by_id (con_heap h c)) s_id of
                  None \<Rightarrow> (Inl KeyError, h)
                | Some s_ref \<Rightarrow>
                    (case set_links parse_uuid s_ref (get_or (j_links ed) []) h of
                       (Inl err, h1) \<Rightarrow> (Inl err, h1)
                     | (Inr _, h1) \<Rightarrow> load_links parse_uuid c eds h1))))"

fun load_relationships ::
  "(string \<Rightarrow> uuid option) \<Rightarrow> ref \<Rightarrow> relationship_json list \<Rightarrow> heap \<Rightarrow> unit outcome" where
  "load_relationships parse_uuid c [] h = (Inr (), h)"
| "load_relationships parse_uuid c (rd # rds) h =
     (case j_type rd of
        None \<Rightarrow> (Inl KeyError, h)
      | Some rt \<Rightarrow>
          (case j_target_concept_id rd of
             None \<Rightarrow> (Inl KeyError, h)
           | Some s \<Rightarrow>
               (case parse_uuid s of
                  None \<Rightarrow> (Inl ValueError, h)
                | Some t \<Rightarrow> load_relationships parse_uuid c rds
                              (add_relationship c rt t (get_or (j_description rd) []) h))))"

definition from_engram :: "(string \<Rightarrow> uuid option) \<Rightarrow> engram \<Rightarrow> heap \<Rightarrow> ref outcome" where
  "from_engram parse_uuid data h =
     (let params = get_or (g_params data) \<lparr>j_inhibition_gain = None, j_activation_threshold = None\<rparr>;
          (c, h1) = new_Concept (get_or (g_name data) []) (get_or (g_description data) [])
                      (Some (get_or (g_metadata data) []))
                      (get_or (j_inhibition_gain params) (1 / 4))
                      (get_or (j_activation_threshold params) (15 / 100)) h
      in case g_concept_id data of
           None \<Rightarrow> (Inl KeyError, h1)
         | Some s \<Rightarrow>
             (case parse_uuid s of
                None \<Rightarrow> (Inl ValueError, h1)
              | Some u \<Rightarrow>
                  (let h2 = upd_con c (\<lambda>k. k\<lparr>concept_id := u\<rparr>) h1
                   in case load_ensembles parse_uuid c (get_or (g_ensembles data) []) h2 of
                        (Inl err, h3) \<Rightarrow> (Inl err, h3)
                      | (Inr _, h3) \<Rightarrow>
                          (case load_links parse_uuid c (get_or (g_ensembles data) []) h3 of
                             (Inl err, h4) \<Rightarrow> (Inl err, h4)
                           | (Inr _, h4) \<Rightarrow>
                               (case load_relationships parse_uuid c
                                       (get_or (g_relationships data) []) h4 of
                                  (Inl err, h5) \<Rightarrow> (Inl err, h5)
                                | (Inr _, h5) \<Rightarrow> (Inr c, h5))))))"

section \<open>relations\_utils.py\<close>

text \<open>
  \<^verbatim>\<open>str(uuid)\<close> is the Python library's; the functions that call it take it as the
  parameter \<open>str_uuid\<close>.
\<close>

type_synonym RelationTuple = "string \<times> string \<times> string"

record rel_delta =
  added :: "RelationTuple list"
  removed :: "RelationTuple list"

definition list_relations :: "(uuid \<Rightarrow> string) \<Rightarrow> heap \<Rightarrow> ref \<Rightarrow> RelationTuple list" where
  "list_relations str_uuid h c =
     map (\<lambda>r. (relation_type r, str_uuid (target_concept_id r), r_description r))
         (relationships (con_heap h c))"

text \<open>
  The set difference is enumerated and then sorted by the whole tuple, so the order in
  which Python lists the set does not show.
\<close>

definition diff_relations :: "RelationTuple list \<Rightarrow> RelationTuple list \<Rightarrow> rel_delta" where
  "diff_relations before after =
     \<lparr>added = sort (remdups [x \<leftarrow> after. x \<notin> set before]),
      removed = sort (remdups [x \<leftarrow> before. x \<notin> set after])\<rparr>"

section \<open>manipulations.py\<close>

text \<open>
  Every operation returns an optional result concept, a relationship delta and a note.
  Number formatting in the notes (\<^verbatim>\<open>{x:.3f}\<close>, \<^verbatim>\<open>{n}\<close>) is the library's: the
  parameters \<open>fmt3\<close> and \<open>str_nat\<close>. A Python set is iterated in the order of the
  dictionary it was built from.
\<close>

type_synonym Result = "ref option \<times> rel_delta \<times> string"

definition ensemble_name_set :: "heap \<Rightarrow> ref \<Rightarrow> string set" where
  "ensemble_name_set h c = set (map fst (ensembles_by_name (con_heap h c)))"

definition copy_concept_shallow :: "ref \<Rightarrow> string \<Rightarrow> heap \<Rightarrow> ref \<times> heap" where
  "copy_concept_shallow c new_name h =
     new_Concept new_name (''Derived from '' @ c_name (con_heap h c))
       (Some (metadata (con_heap h c)))
       (inhibition_gain (con_heap h c)) (activation_threshold (con_heap h c)) h"

text \<open>\<^verbatim>\<open>FeatureEnsemble(name=..., modality=e.modality, vector=list(e.vector),
  description=e.description)\<close> followed by \<^verbatim>\<open>add_ensemble\<close>.\<close>

definition copy_ensemble :: "ref \<Rightarrow> string \<Rightarrow> ref \<Rightarrow> heap \<Rightarrow> ref \<times> heap" where
  "copy_ensemble c nm r h =
     (let e = ens_heap h r;
          (n, h1) = new_FeatureEnsemble nm (modality e) (vector e) (e_description e) h
      in (n, add_ensemble c n h1))"

definition names_in_both :: "heap \<Rightarrow> ref \<Rightarrow> ref \<Rightarrow> string list" where
  "names_in_both h a b =
     [n \<leftarrow> map fst (ensembles_by_name (con_heap h a)). n \<in> ensemble_name_set h b]"

definition avg_link_density :: "heap \<Rightarrow> ref \<Rightarrow> real" where
  "avg_link_density h c =
     (if ensembles_by_id (con_heap h c) = [] then 0
      else (\<Sum>r\<leftarrow>ensemble_refs h c. real (length (links (ens_heap h r))))
           / real (length (ensembles_by_id (con_heap h c))))"

definition compare_concepts :: "(real \<Rightarrow> string) \<Rightarrow> heap \<Rightarrow> ref \<Rightarrow> ref \<Rightarrow> Result" where
  "compare_concepts fmt3 h a b =
     (let na = ensemble_name_set h a;
          nb = ensemble_name_set h b;
          inter = na \<inter> nb;
          union = na \<union> nb;
          jaccard = (if union = {} then 1 else real (card inter) / real (card union));
          cos_vals = concat (map (\<lambda>n. case (get_ensemble h a n, get_ensemble h b n) of
                                      (Some ea, Some eb) \<Rightarrow>
                                        [cosine (vector (ens_heap h ea)) (vector (ens_heap h eb))]
                                    | _ \<Rightarrow> [])
                                 (names_in_both h a b));
          mean_cos = (if cos_vals = [] then 0 else sum_list cos_vals / real (length cos_vals));
          link_density_diff = \<bar>avg_link_density h a - avg_link_density h b\<bar>;
          notes = ''Compare: jaccard='' @ fmt3 jaccard @ '', mean_vector_cosine='' @ fmt3 mean_cos
                  @ '', link_density_diff='' @ fmt3 link_density_diff
      in (None, \<lparr>added = [], removed = []\<rparr>, notes))"

text \<open>
  The inner loop of \<^verbatim>\<open>copy_links\<close>: for every link of a source ensemble, the target's
  name is read through \<^verbatim>\<open>src.ensembles_by_id[tid]\<close> (\<^verbatim>\<open>KeyError\<close> when the source
  does not hold the target), suffixed, and looked up in the table of new identities.
  The link loops of \<^verbatim>\<open>intersect_concepts\<close> and \<^verbatim>\<open>subtract_concepts\<close> are this loop
  with the empty suffix.
\<close>

fun copy_link_entries ::
  "(string \<times> uuid) list \<Rightarrow> ref \<Rightarrow> string \<Rightarrow> ref \<Rightarrow> (uuid \<times> real) list \<Rightarrow> heap \<Rightarrow> unit outcome" where
  "copy_link_entries name_to_id src suffix se [] h = (Inr (), h)"
| "copy_link_entries name_to_id src suffix se ((tid, w) # rest) h =
     (case map_of (ensembles_by_id (con_heap h src)) tid of
        None \<Rightarrow> (Inl KeyError, h)
      | Some tr \<Rightarrow>
          (let tname = e_name (ens_heap h tr);
               tname2 = (if suffix = [] then tname else tname @ suffix)
           in case map_of name_to_id tname2 of
                None \<Rightarrow> copy_link_entries name_to_id src suffix se rest h
              | Some tid2 \<Rightarrow>
                  copy_link_entries name_to_id src suffix se rest
                    (upd_ens se (\<lambda>e. e\<lparr>links := AList.update tid2 w (links e)\<rparr>) h)))"

fun copy_links ::
  "ref \<Rightarrow> (string \<times> uuid) list \<Rightarrow> ref \<Rightarrow> string \<Rightarrow> ref list \<Rightarrow> heap \<Rightarrow> unit outcome" where
  "copy_links c name_to_id src suffix [] h = (Inr (), h)"
| "copy_links c name_to_id src suffix (r # rs) h =
     (let e = ens_heap h r;
          sname = (if suffix = [] then e_name e else e_name e @ suffix)
      in case map_of name_to_id sname of
           None \<Rightarrow> copy_links c name_to_id src suffix rs h
         | Some sid \<Rightarrow>
             (case map_of (ensembles_by_id (con_heap h c)) sid of
                None \<Rightarrow> (Inl KeyError, h)
              | Some se \<Rightarrow>
                  (case copy_link_entries name_to_id src suffix se (links e) h of
                     (Inl err, h1) \<Rightarrow> (Inl err, h1)
                   | (Inr _, h1) \<Rightarrow> copy_links c name_to_id src suffix rs h1)))"

definition merge_name_to_id :: "heap \<Rightarrow> ref \<Rightarrow> (string \<times> uuid) list" where
  "merge_name_to_id h c =
     fold (\<lambda>(eid, r) d. AList.update (e_name (ens_heap h r)) eid d)
          (ensembles_by_id (con_heap h c)) []"

text \<open>The end of \<^verbatim>\<open>merge_concepts\<close>: the two \<^verbatim>\<open>MERGED_FROM\<close> edges, the delta and
  the note.\<close>

definition merge_provenance ::
  "(uuid \<Rightarrow> string) \<Rightarrow> ref \<Rightarrow> ref \<Rightarrow> ref \<Rightarrow> heap \<Rightarrow> Result outcome" where
  "merge_provenance str_uuid c a b h5 =
     (let h6 = add_relationship c ''MERGED_FROM'' (concept_id (con_heap h5 a))
                 (''source:'' @ c_name (con_heap h5 a)) h5;
          h7 = add_relationship c ''MERGED_FROM'' (concept_id (con_heap h6 b))
                 (''source:'' @ c_name (con_heap h6 b)) h6;
          after_rels = list_relations str_uuid h7 c;
          notes = ''Merged '' @ c_name (con_heap h7 a) @ '' and ''
                  @ c_name (con_heap h7 b) @ '' into '' @ c_name (con_heap h7 c)
                  @ ''; added MERGED_FROM edges.''
      in (Inr (Some c, \<lparr>added = after_rels, removed = []\<rparr>, notes), h7))"

definition merge_concepts ::
  "(uuid \<Rightarrow> string) \<Rightarrow> ref \<Rightarrow> ref \<Rightarrow> string \<Rightarrow> heap \<Rightarrow> Result outcome" where
  "merge_concepts str_uuid a b new_name h =
     (let (c, h1) = copy_concept_shallow a new_name h;
          h2 = fold (\<lambda>r h'. snd (copy_ensemble c (e_name (ens_heap h' r)) r h'))
                    (ensemble_refs h1 a) h1;
          h3 = fold (\<lambda>r h'.
                       let nm = e_name (ens_heap h' r);
                           name_b = (if nm \<notin> ensemble_name_set h' c then nm else nm @ ''__B'')
                       in snd (copy_ensemble c name_b r h'))
                    (ensemble_refs h2 b) h2;
          name_to_id = merge_name_to_id h3 c
      in case copy_links c name_to_id a [] (ensemble_refs h3 a) h3 of
           (Inl err, h4) \<Rightarrow> (Inl err, h4)
         | (Inr _, h4) \<Rightarrow>
             (case copy_links c name_to_id b ''__B'' (ensemble_refs h4 b) h4 of
                (Inl err, h5) \<Rightarrow> (Inl err, h5)
              | (Inr _, h5) \<Rightarrow> merge_provenance str_uuid c a b h5))"

text \<open>The link loop shared by \<^verbatim>\<open>intersect_concepts\<close> (over the shared names) and
  \<^verbatim>\<open>subtract_concepts\<close> (over the kept ensembles): the new ensemble is found by
  name in the result.\<close>

fun relink ::
  "ref \<Rightarrow> (string \<times> uuid) list \<Rightarrow> ref \<Rightarrow> (string \<times> ref) list \<Rightarrow> heap \<Rightarrow> unit outcome" where
  "relink c name_to_new a [] h = (Inr (), h)"
| "relink c name_to_new a ((n, ea) # rest) h =
     (case get_ensemble h c n of
        None \<Rightarrow> relink c name_to_new a rest h
      | Some se \<Rightarrow>
          (case copy_link_entries name_to_new a [] se (links (ens_heap h ea)) h of
             (Inl err, h1) \<Rightarrow> (Inl err, h1)
           | (Inr _, h1) \<Rightarrow> relink c name_to_new a rest h1))"

definition copy_named_step ::
  "ref \<Rightarrow> string \<times> ref \<Rightarrow> (string \<times> uuid) list \<times> heap \<Rightarrow> (string \<times> uuid) list \<times> heap" where
  "copy_named_step c = (\<lambda>(n, ea) (name_to_new, h').
             let (ne, h1) = copy_ensemble c (e_name (ens_heap h' ea)) ea h'
             in (AList.update n (ensemble_id (ens_heap h1 ne)) name_to_new, h1))"

definition copy_named ::
  "ref \<Rightarrow> (string \<times> ref) list \<Rightarrow> heap \<Rightarrow> (string \<times> uuid) list \<times> heap" where
  "copy_named c keep h = fold (copy_named_step c) keep ([], h)"

definition shared_rels ::
  "(uuid \<Rightarrow> string) \<Rightarrow> heap \<Rightarrow> ref \<Rightarrow> ref \<Rightarrow> (string \<times> string) list" where
  "shared_rels str_uuid h a b =
     (let rels_a = map (\<lambda>r. (relation_type r, str_uuid (target_concept_id r)))
                       (relationships (con_heap h a));
          rels_b = map (\<lambda>r. (relation_type r, str_uuid (target_concept_id r)))
                       (relationships (con_heap h b))
      in remdups [x \<leftarrow> rels_a. x \<in> set rels_b])"

fun add_shared_rels ::
  "(string \<Rightarrow> uuid option) \<Rightarrow> ref \<Rightarrow> (string \<times> string) list \<Rightarrow> heap \<Rightarrow> unit outcome" where
  "add_shared_rels parse_uuid c [] h = (Inr (), h)"
| "add_shared_rels parse_uuid c ((rel_type, target_id_str) # rest) h =
     (case parse_uuid target_id_str of
        None \<Rightarrow> (Inl ValueError, h)
      | Some t \<Rightarrow> add_shared_rels parse_uuid c rest
                    (add_relationship c rel_type t ''shared relation'' h))"

definition intersect_concepts ::
  "(uuid \<Rightarrow> string) \<Rightarrow> (string \<Rightarrow> uuid option) \<Rightarrow> (nat \<Rightarrow> string) \<Rightarrow> ref \<Rightarrow> ref \<Rightarrow> string
   \<Rightarrow> heap \<Rightarrow> Result outcome" where
  "intersect_concepts str_uuid parse_uuid str_nat a b new_name h =
     (let (result, h1) = copy_concept_shallow a new_name h;
          shared_names = names_in_both h1 a b;
          found = concat (map (\<lambda>n. case get_ensemble h1 a n of None \<Rightarrow> []
                                    | Some ea \<Rightarrow> [(n, ea)]) shared_names);
          (name_to_new_id, h2) = copy_named result found h1
      in case relink result name_to_new_id a found h2 of
           (Inl err, h3) \<Rightarrow> (Inl err, h3)
         | (Inr _, h3) \<Rightarrow>
             (let rels = shared_rels str_uuid h3 a b
              in case add_shared_rels parse_uuid result rels h3 of
                   (Inl err, h4) \<Rightarrow> (Inl err, h4)
                 | (Inr _, h4) \<Rightarrow>
                     (let notes = ''Intersection created. Shared ensembles: ''
                                  @ str_nat (length shared_names)
                                  @ ''. Shared relations added: '' @ str_nat (length rels) @ ''.''
                      in (Inr (Some result,
                               \<lparr>added = list_relations str_uuid h4 result, removed = []\<rparr>, notes),
                          h4))))"

definition subtract_concepts :: "ref \<Rightarrow> ref \<Rightarrow> string \<Rightarrow> heap \<Rightarrow> Result outcome" where
  "subtract_concepts a b new_name h =
     (let (c, h1) = copy_concept_shallow a new_name h;
          nb = ensemble_name_set h1 b;
          keep = [r \<leftarrow> ensemble_refs h1 a. e_name (ens_heap h1 r) \<notin> nb];
          named = map (\<lambda>r. (e_name (ens_heap h1 r), r)) keep;
          (name_to_new, h2) = copy_named c named h1
      in case relink c name_to_new a named h2 of
           (Inl err, h3) \<Rightarrow> (Inl err, h3)
         | (Inr _, h3) \<Rightarrow>
             (Inr (Some c, \<lparr>added = [], removed = []\<rparr>,
                   ''Subtraction created. Relations unchanged (derived concept has none by default).''),
              h3))"

definition bind_relation ::
  "(uuid \<Rightarrow> string) \<Rightarrow> ref \<Rightarrow> ref \<Rightarrow> string \<Rightarrow> string \<Rightarrow> heap \<Rightarrow> Result \<times> heap" where
  "bind_relation str_uuid a b rt descr h =
     (let before = list_relations str_uuid h a;
          h1 = add_relationship a rt (concept_id (con_heap h b)) descr h;
          after = list_relations str_uuid h1 a;
          delta = diff_relations before after;
          notes = ''Added relation '' @ rt @ '' from '' @ c_name (con_heap h1 a) @ '' to ''
                  @ c_name (con_heap h1 b) @ ''.''
      in ((Some a, delta, notes), h1))"

section \<open>cell\_ensemble\_rt.py\<close>

text \<open>
  A runtime ensemble is one object that nothing else refers to, so it is a record passed
  from state to state. \<open>registry\<close> is the \<^verbatim>\<open>cosine\<close> method of the unit store, or
  \<open>None\<close> when there is no registry with such a method. The fields \<^verbatim>\<open>_scheduled\<close>,
  \<^verbatim>\<open>_t\<close>, \<^verbatim>\<open>_dt\<close> and \<^verbatim>\<open>_active_last_step\<close> lose their underscore. The set
  \<^verbatim>\<open>fired_now\<close> is a list without repetition, in the order in which the keys are
  added.
\<close>

type_synonym Time = real
type_synonym UnitKey = string

record CellEnsembleRT =
  rt_name :: string
  units :: "UnitKey set"
  context_tags :: "string set"
  registry :: "(UnitKey \<Rightarrow> UnitKey \<Rightarrow> real) option"
  scheduled :: "(Time \<times> (UnitKey \<times> real) list) list"
  weights :: "((UnitKey \<times> UnitKey) \<times> real) list"
  eta_hebb :: real
  decay :: real
  max_weight :: real
  t_now :: real
  dt_default :: real
  active_last_step :: "UnitKey set"

text \<open>A fresh instance: the containers and the runtime state at the dataclass defaults.\<close>

definition new_CellEnsembleRT ::
  "string \<Rightarrow> UnitKey set \<Rightarrow> string set \<Rightarrow> (UnitKey \<Rightarrow> UnitKey \<Rightarrow> real) option
   \<Rightarrow> real \<Rightarrow> real \<Rightarrow> real \<Rightarrow> CellEnsembleRT" where
  "new_CellEnsembleRT nm us tags reg eta dec mw =
     \<lparr>rt_name = nm, units = us, context_tags = tags, registry = reg,
      scheduled = [], weights = [], eta_hebb = eta, decay = dec, max_weight = mw,
      t_now = 0, dt_default = 1 / 100, active_last_step = {}\<rparr>"

definition add_units :: "UnitKey list \<Rightarrow> CellEnsembleRT \<Rightarrow> CellEnsembleRT" where
  "add_units keys s = fold (\<lambda>k s'. s'\<lparr>units := insert k (units s')\<rparr>) keys s"

definition schedule_spike :: "Time \<Rightarrow> UnitKey \<Rightarrow> real \<Rightarrow> CellEnsembleRT \<Rightarrow> CellEnsembleRT" where
  "schedule_spike t key strength s =
     (let s1 = (if key \<notin> units s then s\<lparr>units := insert key (units s)\<rparr> else s);
          st = max 0 (min 1 strength)
      in s1\<lparr>scheduled :=
              (case map_of (scheduled s1) t of
                 None \<Rightarrow> scheduled s1 @ [(t, [(key, st)])]
               | Some events \<Rightarrow> AList.update t (events @ [(key, st)]) (scheduled s1))\<rparr>)"

definition schedule_pattern :: "(Time \<times> UnitKey \<times> real) list \<Rightarrow> CellEnsembleRT \<Rightarrow> CellEnsembleRT" where
  "schedule_pattern spikes s = fold (\<lambda>(t, k, st) s'. schedule_spike t k st s') spikes s"

definition hebb_increment :: "CellEnsembleRT \<Rightarrow> UnitKey \<Rightarrow> UnitKey \<Rightarrow> real" where
  "hebb_increment s a b =
     (let base = eta_hebb s
      in case registry s of
           Some sim \<Rightarrow> base * (1 / 2 + 1 / 2 * max 0 (sim a b))
         | None \<Rightarrow> base)"

definition set_add :: "'a \<Rightarrow> 'a list \<Rightarrow> 'a list" where
  "set_add k xs = (if k \<in> set xs then xs else xs @ [k])"

text \<open>The first loop of \<^verbatim>\<open>activate_step\<close>: the keys fired and the timestamps to delete.\<close>

definition due :: "Time \<Rightarrow> Time \<Rightarrow> Time \<Rightarrow> bool" where
  "due t0 t1 ts \<longleftrightarrow> t0 < ts \<and> ts \<le> t1"

definition fired_keys :: "Time \<Rightarrow> Time \<Rightarrow> (Time \<times> (UnitKey \<times> real) list) list \<Rightarrow> UnitKey list" where
  "fired_keys t0 t1 sched =
     fold (\<lambda>(ts, events) fired.
             if due t0 t1 ts then fold (\<lambda>(k, st) f. set_add k f) events fired else fired)
          sched []"

definition to_delete :: "Time \<Rightarrow> Time \<Rightarrow> (Time \<times> (UnitKey \<times> real) list) list \<Rightarrow> Time list" where
  "to_delete t0 t1 sched = [ts \<leftarrow> map fst sched. due t0 t1 ts]"

text \<open>The decay loop: every weight is multiplied, and deleted when it is below \<open>1e-6\<close>
  in absolute value. On an empty dictionary the loop is skipped.\<close>

definition decay_one ::
  "real \<Rightarrow> UnitKey \<times> UnitKey \<Rightarrow> ((UnitKey \<times> UnitKey) \<times> real) list
   \<Rightarrow> ((UnitKey \<times> UnitKey) \<times> real) list" where
  "decay_one dec k w =
     (let w1 = AList.update k (get_default w k * dec) w
      in if \<bar>get_default w1 k\<bar> < 1 / 10 ^ 6 then AList.delete k w1 else w1)"

definition decay_weights ::
  "real \<Rightarrow> ((UnitKey \<times> UnitKey) \<times> real) list \<Rightarrow> ((UnitKey \<times> UnitKey) \<times> real) list" where
  "decay_weights dec ws = (if ws = [] then ws else fold (decay_one dec) (map fst ws) ws)"

text \<open>The Hebbian loop over \<^verbatim>\<open>i < j\<close>: the pairs in the order of the two nested loops.\<close>

fun index_pairs :: "'a list \<Rightarrow> ('a \<times> 'a) list" where
  "index_pairs [] = []"
| "index_pairs (x # xs) = map (Pair x) xs @ index_pairs xs"

text \<open>\<^verbatim>\<open>key = (a, b) if a < b else (b, a)\<close>, strings compared as Python compares them.\<close>

definition pair_key :: "UnitKey \<times> UnitKey \<Rightarrow> UnitKey \<times> UnitKey" where
  "pair_key p = (if fst p < snd p then (fst p, snd p) else (snd p, fst p))"

definition hebb_update ::
  "CellEnsembleRT \<Rightarrow> UnitKey \<times> UnitKey \<Rightarrow> ((UnitKey \<times> UnitKey) \<times> real) list
   \<Rightarrow> ((UnitKey \<times> UnitKey) \<times> real) list" where
  "hebb_update s p ws =
     (let key = pair_key p;
          w = get_default ws key + hebb_increment s (fst p) (snd p)
      in AList.update key (min w (max_weight s)) ws)"

definition activate_step :: "real option \<Rightarrow> CellEnsembleRT \<Rightarrow> UnitKey set \<times> CellEnsembleRT" where
  "activate_step dt s =
     (let d = (case dt of None \<Rightarrow> dt_default s | Some x \<Rightarrow> x);
          t0 = t_now s;
          t1 = t_now s + d;
          fired_now = fired_keys t0 t1 (scheduled s);
          sched = fold AList.delete (to_delete t0 t1 (scheduled s)) (scheduled s);
          ws1 = decay_weights (decay s) (weights s);
          ws2 = (if fired_now = [] then ws1 else fold (hebb_update s) (index_pairs fired_now) ws1)
      in (set fired_now,
          s\<lparr>scheduled := sched, weights := ws2, active_last_step := set fired_now, t_now := t1\<rparr>))"

section \<open>Example data\<close>

text \<open>
  A store with no live object, whose identity sequence counts up from 100, and a
  rendering of identities as text for the examples. \<open>dog_heap\<close> follows
  \<^verbatim>\<open>seed_concepts.list_catalog\<close>: a concept Dog (at address 10) with an IS\_A edge
  to a concept Animal (at address 11).
\<close>

definition blank_heap :: heap where
  "blank_heap =
     \<lparr>ens_heap = (\<lambda>_. \<lparr>e_name = [], modality = [], vector = [], e_description = [],
                          activation = 0, ensemble_id = 0, links = []\<rparr>),
      con_heap = (\<lambda>_. \<lparr>concept_id = 0, c_name = [], c_description = [], metadata = [],
                          ensembles_by_id = [], ensembles_by_name = [], relationships = [],
                          inhibition_gain = 0, activation_threshold = 0\<rparr>),
      next_ref = 10, uuid_src = (\<lambda>n. 100 + n), uuid_idx = 0\<rparr>"

definition unary :: "nat \<Rightarrow> string" where
  "unary n = replicate n (CHR ''u'')"

definition dog_heap :: heap where
  "dog_heap =
     (let (a, h1) = new_Concept ''Dog'' ''Canine animal concept'' None (1 / 4) (15 / 100) blank_heap;
          (b, h2) = new_Concept ''Animal'' ''Superclass for animals'' None (1 / 4) (15 / 100) h1
      in add_relationship a ''IS_A'' (concept_id (con_heap h2 b)) ''dog is an animal'' h2)"

text \<open>
  \<open>dangling_heap\<close>: a concept (address 10) with one ensemble \<open>shape\<close> (address 11)
  that holds a link to the identity 999, which the concept does not contain.
\<close>

definition dangling_heap :: heap where
  "dangling_heap =
     (let (c, h1) = new_Concept ''Dog'' [] None (1 / 4) (15 / 100) blank_heap;
          (e, h2) = new_FeatureEnsemble ''shape'' ''vision'' [1, 0] [] h1;
          h3 = add_link e 999 (2 / 10) h2
      in add_ensemble c e h3)"

text \<open>
  \<open>merge_heap\<close>: an empty concept A (address 10) and a concept B (address 11) with the
  ensembles \<open>shape\<close> (address 12) and \<open>color\<close> (address 13) and a link of weight
  \<open>0.2\<close> from \<open>shape\<close> to \<open>color\<close>.
\<close>

definition merge_heap :: heap where
  "merge_heap =
     (let (a, h1) = new_Concept ''A'' [] None (1 / 4) (15 / 100) blank_heap;
          (b, h2) = new_Concept ''B'' [] None (1 / 4) (15 / 100) h1;
          (x, h3) = new_FeatureEnsemble ''shape'' ''vision'' [1, 0] [] h2;
          (y, h4) = new_FeatureEnsemble ''color'' ''vision'' [0, 1] [] h3;
          h5 = add_link x (ensemble_id (ens_heap h4 y)) (2 / 10) h4;
          h6 = add_ensemble b x h5
      in add_ensemble b y h6)"

text \<open>
  \<open>collide_heap\<close>: a fresh concept (address 10), then two ensembles that are both
  named \<open>shape\<close> (addresses 11 and 12, identities 101 and 102), both registered.
\<close>

definition collide_heap :: heap where
  "collide_heap =
     add_ensemble 10 12 (add_ensemble 10 11
       (snd (new_FeatureEnsemble ''shape'' ''audio'' [0, 1] []
          (snd (new_FeatureEnsemble ''shape'' ''vision'' [1, 0] []
             (snd (new_Concept ''Dog'' [] None (1 / 4) (15 / 100) blank_heap)))))))"



definition seeded :: CellEnsembleRT where
  "seeded = (new_CellEnsembleRT ''seed'' {''a'', ''b''} {} None (2 / 100) (4 / 10) 1)
              \<lparr>weights := [((''a'', ''b''), 2 / 10 ^ 6)]\<rparr>"

definition cofire :: CellEnsembleRT where
  "cofire =
     schedule_pattern [(5 / 100, ''y'', 1), (5 / 100, ''x'', 1)]
       (new_CellEnsembleRT ''pair'' {} {} None (2 / 100) (999 / 1000) 1)"

section \<open>Notions used in the statements on runtime ensembles\<close>

text \<open>What one pass of the decay loop leaves of a weight: nothing when the product is
  below \<open>1e-6\<close> in absolute value, the product otherwise.\<close>

definition decayed :: "real \<Rightarrow> real option \<Rightarrow> real option" where
  "decayed dec x = (case x of None \<Rightarrow> None
     | Some v \<Rightarrow> if \<bar>v * dec\<bar> < 1 / 10 ^ 6 then None else Some (v * dec))"

text \<open>The time at which a step ends: \<^verbatim>\<open>t1 = self._t + dt\<close>, with the default step
  when no \<open>dt\<close> is given.\<close>

definition step_end :: "real option \<Rightarrow> CellEnsembleRT \<Rightarrow> real" where
  "step_end dt s = t_now s + (case dt of None \<Rightarrow> dt_default s | Some d \<Rightarrow> d)"

text \<open>A weight map whose keys are distinct and strictly ordered pairs.\<close>

definition ordered_keys :: "((UnitKey \<times> UnitKey) \<times> real) list \<Rightarrow> bool" where
  "ordered_keys ws \<longleftrightarrow> (\<forall>k \<in> fst ` set ws. fst k < snd k) \<and> distinct (map fst ws)"

text \<open>The runtime ensembles that the public operations produce from a fresh instance.\<close>

inductive rt_reachable :: "CellEnsembleRT \<Rightarrow> bool" where
  rt_fresh: "rt_reachable (new_CellEnsembleRT nm us tags reg eta dec mw)"
| rt_add_units: "rt_reachable s \<Longrightarrow> rt_reachable (add_units keys s)"
| rt_schedule_spike: "rt_reachable s \<Longrightarrow> rt_reachable (schedule_spike t key strength s)"
| rt_schedule_pattern: "rt_reachable s \<Longrightarrow> rt_reachable (schedule_pattern spikes s)"
| rt_activate_step: "rt_reachable s \<Longrightarrow> rt_reachable (snd (activate_step dt s))"

section \<open>Notions used in the statements on concepts\<close>

text \<open>
  The stores that the public operations on a concept \<open>c\<close> produce after its
  construction: \<^verbatim>\<open>add_ensemble\<close>, \<^verbatim>\<open>stimulate\<close> (also when it raises),
  \<^verbatim>\<open>learn_hebbian\<close>, \<^verbatim>\<open>add_relationship\<close> and \<^verbatim>\<open>decay_all\<close>, together
  with the construction and linking of ensembles in between. With \<open>strict\<close> set, an
  ensemble is registered only when its name is new to the index or indexed to its own
  identity.
\<close>

definition name_free :: "heap \<Rightarrow> ref \<Rightarrow> ref \<Rightarrow> bool" where
  "name_free h c e \<longleftrightarrow>
     (case map_of (ensembles_by_name (con_heap h c)) (e_name (ens_heap h e)) of
        None \<Rightarrow> True
      | Some i \<Rightarrow> i = ensemble_id (ens_heap h e))"

inductive concept_states :: "bool \<Rightarrow> ref \<Rightarrow> heap \<Rightarrow> bool" where
  cs_new: "new_Concept nm descr md ig thr h0 = (c, h) \<Longrightarrow> concept_states strict c h"
| cs_add_ensemble:
    "concept_states strict c h \<Longrightarrow> (strict \<Longrightarrow> name_free h c e)
     \<Longrightarrow> concept_states strict c (add_ensemble c e h)"
| cs_stimulate:
    "concept_states strict c h \<Longrightarrow> concept_states strict c (snd (stimulate round4 c cues gain h))"
| cs_learn_hebbian:
    "concept_states strict c h \<Longrightarrow> concept_states strict c (learn_hebbian c lr ma h)"
| cs_add_relationship:
    "concept_states strict c h \<Longrightarrow> concept_states strict c (add_relationship c rt t descr h)"
| cs_decay_all:
    "concept_states strict c h \<Longrightarrow> concept_states strict c (decay_all c fraction h)"
| cs_new_ensemble:
    "concept_states strict c h
     \<Longrightarrow> concept_states strict c (snd (new_FeatureEnsemble nm md vec descr h))"
| cs_add_link:
    "concept_states strict c h \<Longrightarrow> concept_states strict c (add_link e t w h)"

text \<open>
  Agreement of the two indexes of a concept: every name leads to an identity that the
  identity map holds and, when \<open>strict\<close>, every identity of the identity map is
  the value of some name.
\<close>

definition index_agrees :: "bool \<Rightarrow> Concept \<Rightarrow> bool" where
  "index_agrees strict k \<longleftrightarrow>
     (\<forall>n i. map_of (ensembles_by_name k) n = Some i \<longrightarrow> map_of (ensembles_by_id k) i \<noteq> None)
   \<and> (strict \<longrightarrow> (\<forall>i r. map_of (ensembles_by_id k) i = Some r
                       \<longrightarrow> (\<exists>n. map_of (ensembles_by_name k) n = Some i)))"



text \<open>
  For the proofs: the total weight of the entries with a given key, the contribution of
  one source to the delta of a target, and one iteration of the outer spread loop.
\<close>

definition weight_to :: "'k \<Rightarrow> ('k \<times> real) list \<Rightarrow> real" where
  "weight_to t xs = (\<Sum>p\<leftarrow>xs. if fst p = t then snd p else 0)"



text \<open>
  A store \<open>h\<close> built from \<open>h0\<close> by writing only to objects allocated after
  \<open>h0\<close>: every object of \<open>h0\<close> (every address below its allocation pointer) is as
  it was, and the concept \<open>c\<close> under construction and all ensembles it holds are new.
\<close>

definition fresh_build :: "heap \<Rightarrow> ref \<Rightarrow> heap \<Rightarrow> bool" where
  "fresh_build h0 c h \<longleftrightarrow>
     (\<forall>r<next_ref h0. ens_heap h r = ens_heap h0 r \<and> con_heap h r = con_heap h0 r)
   \<and> next_ref h0 \<le> next_ref h \<and> next_ref h0 \<le> c
   \<and> (\<forall>r \<in> snd ` set (ensembles_by_id (con_heap h c)). next_ref h0 \<le> r)"

section \<open>Evaluating the store on the examples\<close>

lemmas heap_defs = blank_heap_def new_Concept_def new_FeatureEnsemble_def uuid4_def add_link_def
  add_ensemble_def add_relationship_def upd_con_def upd_ens_def get_default_def Let_def

lemma merge_heap_objects:
  "con_heap merge_heap 10 =
     \<lparr>concept_id = 100, c_name = ''A'', c_description = [], metadata = [(''version'', ''3.0'')],
      ensembles_by_id = [], ensembles_by_name = [], relationships = [],
      inhibition_gain = 1 / 4, activation_threshold = 15 / 100\<rparr>"
  "con_heap merge_heap 11 =
     \<lparr>concept_id = 101, c_name = ''B'', c_description = [], metadata = [(''version'', ''3.0'')],
      ensembles_by_id = [(102, 12), (103, 13)],
      ensembles_by_name = [(''shape'', 102), (''color'', 103)], relationships = [],
      inhibition_gain = 1 / 4, activation_threshold = 15 / 100\<rparr>"
  "ens_heap merge_heap 12 =
     \<lparr>e_name = ''shape'', modality = ''vision'', vector = [1, 0], e_description = [],
      activation = 0, ensemble_id = 102, links = [(103, 2 / 10)]\<rparr>"
  "ens_heap merge_heap 13 =
     \<lparr>e_name = ''color'', modality = ''vision'', vector = [0, 1], e_description = [],
      activation = 0, ensemble_id = 103, links = []\<rparr>"
  "next_ref merge_heap = 14" "uuid_idx merge_heap = 4" "uuid_src merge_heap = (\<lambda>n. 100 + n)"
  by (simp_all add: merge_heap_def heap_defs)

section \<open>What the operations leave unchanged in the store\<close>

lemma upd_ens_fields [simp]:
  "con_heap (upd_ens r f h) = con_heap h"
  "next_ref (upd_ens r f h) = next_ref h"
  "uuid_src (upd_ens r f h) = uuid_src h"
  "uuid_idx (upd_ens r f h) = uuid_idx h"
  "ens_heap (upd_ens r f h) = (ens_heap h)(r := f (ens_heap h r))"
  by (simp_all add: upd_ens_def)

lemma upd_con_fields [simp]:
  "ens_heap (upd_con r f h) = ens_heap h"
  "next_ref (upd_con r f h) = next_ref h"
  "uuid_src (upd_con r f h) = uuid_src h"
  "uuid_idx (upd_con r f h) = uuid_idx h"
  "con_heap (upd_con r f h) = (con_heap h)(r := f (con_heap h r))"
  by (simp_all add: upd_con_def)

lemma con_heap_fold_upd_ens:
  "con_heap (fold (\<lambda>r. upd_ens r (f r)) rs h) = con_heap h"
  by (induction rs arbitrary: h) simp_all

lemma con_heap_new_FeatureEnsemble:
  "con_heap (snd (new_FeatureEnsemble nm md vec descr h)) = con_heap h"
  by (simp add: new_FeatureEnsemble_def uuid4_def Let_def)

lemma con_heap_add_link: "con_heap (add_link e t w h) = con_heap h"
  by (simp add: add_link_def)

lemma con_heap_ensemble_decay: "con_heap (ensemble_decay r fr h) = con_heap h"
  by (simp add: ensemble_decay_def Let_def)

lemma con_heap_hebbian: "con_heap (hebbian r ids lr h) = con_heap h"
  by (simp add: hebbian_def)

lemma con_heap_decay_all: "con_heap (decay_all c fr h) = con_heap h"
proof -
  have "con_heap (fold (\<lambda>r. ensemble_decay r fr) rs h) = con_heap h" for rs
    by (induction rs arbitrary: h) (simp_all add: con_heap_ensemble_decay)
  then show ?thesis by (simp add: decay_all_def)
qed

lemma con_heap_learn_hebbian: "con_heap (learn_hebbian c lr ma h) = con_heap h"
proof -
  have "con_heap (fold (\<lambda>r h'. if activation (ens_heap h' r) \<ge> thr
                       then hebbian r ids lr h' else h') rs h) = con_heap h" for rs thr ids
    by (induction rs arbitrary: h) (simp_all add: con_heap_hebbian)
  then show ?thesis by (simp add: learn_hebbian_def Let_def)
qed

lemma con_heap_direct_activation: "con_heap (direct_activation c cues gain h) = con_heap h"
  unfolding direct_activation_def
proof (induction cues arbitrary: h)
  case Nil show ?case by simp
next
  case (Cons cue cues)
  obtain nm vec where cue: "cue = (nm, vec)" by (cases cue)
  show ?case unfolding cue by (simp add: Cons split: option.split)
qed

lemma con_heap_apply_delta: "con_heap (snd (apply_delta c delta h)) = con_heap h"
proof (induction delta arbitrary: h)
  case Nil show ?case by simp
next
  case (Cons p delta)
  obtain t d where p: "p = (t, d)" by (cases p)
  show ?case unfolding p by (simp add: Cons split: option.split)
qed

lemma con_heap_lateral_inhibition: "con_heap (snd (lateral_inhibition c h)) = con_heap h"
  by (simp add: lateral_inhibition_def Let_def con_heap_fold_upd_ens)

lemma con_heap_stimulate: "con_heap (snd (stimulate round4 c cues gain h)) = con_heap h"
proof -
  let ?h1 = "direct_activation c cues gain h"
  obtain r2 h2 where s: "apply_delta c (spread_delta ?h1 c) ?h1 = (r2, h2)" by (cases "apply_delta c (spread_delta ?h1 c) ?h1")
  obtain r3 h3 where l: "lateral_inhibition c h2 = (r3, h3)" by (cases "lateral_inhibition c h2")
  have 2: "con_heap h2 = con_heap h"
    using con_heap_apply_delta [of c "spread_delta ?h1 c" ?h1] s
    by (simp add: con_heap_direct_activation)
  have 3: "con_heap h3 = con_heap h"
    using con_heap_lateral_inhibition [of c h2] l 2 by simp
  show ?thesis
    using s l 2 3 by (cases r2; cases r3) (simp_all add: stimulate_def spread_def Let_def)
qed

section \<open>Lemmas on the runtime ensemble\<close>




lemma set_set_add [simp]: "set (set_add k xs) = insert k (set xs)"
  by (auto simp: set_add_def)

lemma distinct_set_add [simp]: "distinct (set_add k xs) = distinct xs"
  by (auto simp: set_add_def)

lemma set_fold_events:
  "set (fold (\<lambda>(k, st) f. set_add k f) events fired) = fst ` set events \<union> set fired"
proof (induction events arbitrary: fired)
  case Nil show ?case by simp
next
  case (Cons e events)
  obtain k st where e: "e = (k, st)" by (cases e)
  show ?case unfolding e by (simp add: Cons)
qed

lemma distinct_fold_events:
  "distinct (fold (\<lambda>(k, st) f. set_add k f) events fired) = distinct fired"
proof (induction events arbitrary: fired)
  case Nil show ?case by simp
next
  case (Cons e events)
  obtain k st where e: "e = (k, st)" by (cases e)
  show ?case unfolding e by (simp add: Cons)
qed

lemma in_fold_sched:
  "k \<in> set (fold (\<lambda>(ts, events) fired.
             if due t0 t1 ts then fold (\<lambda>(k, st) f. set_add k f) events fired else fired)
          sched acc)
   \<longleftrightarrow> k \<in> set acc \<or> (\<exists>p \<in> set sched. due t0 t1 (fst p) \<and> k \<in> fst ` set (snd p))"
proof (induction sched arbitrary: acc)
  case Nil show ?case by simp
next
  case (Cons p sched)
  obtain ts events where p: "p = (ts, events)" by (cases p)
  show ?case
  proof (cases "due t0 t1 ts")
    case True
    then show ?thesis unfolding p by (simp add: Cons set_fold_events) blast
  next
    case False
    then show ?thesis unfolding p by (simp add: Cons)
  qed
qed

lemma distinct_fold_sched:
  "distinct (fold (\<lambda>(ts, events) fired.
             if due t0 t1 ts then fold (\<lambda>(k, st) f. set_add k f) events fired else fired)
          sched acc) = distinct acc"
proof (induction sched arbitrary: acc)
  case Nil show ?case by simp
next
  case (Cons p sched)
  obtain ts events where p: "p = (ts, events)" by (cases p)
  show ?case unfolding p by (simp add: Cons distinct_fold_events)
qed

lemma set_fired_keys:
  "set (fired_keys t0 t1 sched) = (\<Union>p \<in> set [p \<leftarrow> sched. due t0 t1 (fst p)]. fst ` set (snd p))"
  unfolding fired_keys_def
  by (rule set_eqI) (simp add: in_fold_sched Bex_def)

lemma distinct_fired_keys: "distinct (fired_keys t0 t1 sched)"
  by (simp add: fired_keys_def distinct_fold_sched)

lemma map_of_decay_one:
  "map_of (decay_one dec k w) k' =
     (if k' = k then decayed dec (Some (get_default w k)) else map_of w k')"
  by (simp add: decay_one_def Let_def get_default_def decayed_def update_conv' delete_conv')

lemma keys_decay_one: "fst ` set (decay_one dec k w) \<subseteq> insert k (fst ` set w)"
  using dom_delete_subset [of k "AList.update k (get_default w k * dec) w"]
  by (auto simp: decay_one_def Let_def dom_update)

lemma map_of_fold_decay_one:
  assumes "distinct ks" "set ks \<subseteq> fst ` set w"
  shows "map_of (fold (decay_one dec) ks w) k' =
         (if k' \<in> set ks then decayed dec (map_of w k') else map_of w k')"
  using assms
proof (induction ks arbitrary: w)
  case Nil show ?case by simp
next
  case (Cons k ks)
  have k: "k \<notin> set ks" "distinct ks" using Cons.prems(1) by simp_all
  obtain v where v: "map_of w k = Some v"
    using Cons.prems(2) by (cases "map_of w k") (auto simp: map_of_eq_None_iff)
  have sub: "set ks \<subseteq> fst ` set (decay_one dec k w)"
  proof
    fix x assume x: "x \<in> set ks"
    then have "x \<noteq> k" using k by auto
    moreover have "map_of w x \<noteq> None" using x Cons.prems(2)
      by (auto simp: map_of_eq_None_iff)
    ultimately have "map_of (decay_one dec k w) x \<noteq> None" by (simp add: map_of_decay_one)
    then show "x \<in> fst ` set (decay_one dec k w)" by (simp add: map_of_eq_None_iff)
  qed
  have "map_of (fold (decay_one dec) (k # ks) w) k' =
        (if k' \<in> set ks then decayed dec (map_of (decay_one dec k w) k')
         else map_of (decay_one dec k w) k')"
    using Cons.IH [OF k(2) sub] by simp
  then show ?case using k(1) v by (auto simp: map_of_decay_one get_default_def)
qed

lemma map_of_decay_weights:
  assumes "distinct (map fst ws)"
  shows "map_of (decay_weights dec ws) k = decayed dec (map_of ws k)"
proof (cases "ws = []")
  case True then show ?thesis by (simp add: decay_weights_def decayed_def)
next
  case False
  have dw: "decay_weights dec ws = fold (decay_one dec) (map fst ws) ws"
    using False by (simp add: decay_weights_def)
  have m: "map_of (decay_weights dec ws) k =
        (if k \<in> fst ` set ws then decayed dec (map_of ws k) else map_of ws k)"
    using map_of_fold_decay_one [OF assms, of ws dec k] by (simp add: dw)
  show ?thesis
  proof (cases "k \<in> fst ` set ws")
    case True then show ?thesis using m by simp
  next
    case False
    then have "map_of ws k = None" by (simp add: map_of_eq_None_iff)
    then show ?thesis using m False by (simp add: decayed_def)
  qed
qed


lemma keys_fold_decay_one: "fst ` set (fold (decay_one dec) ks w) \<subseteq> set ks \<union> fst ` set w"
proof (induction ks arbitrary: w)
  case Nil show ?case by simp
next
  case (Cons k ks)
  show ?case using Cons [of "decay_one dec k w"] keys_decay_one [of dec k w] by auto
qed

lemma keys_decay_weights: "fst ` set (decay_weights dec ws) \<subseteq> fst ` set ws"
  using keys_fold_decay_one [of dec "map fst ws" ws] by (auto simp: decay_weights_def)

lemma distinct_decay_one: "distinct (map fst w) \<Longrightarrow> distinct (map fst (decay_one dec k w))"
  by (simp add: decay_one_def Let_def distinct_update distinct_delete)

lemma distinct_fold_decay_one:
  "distinct (map fst w) \<Longrightarrow> distinct (map fst (fold (decay_one dec) ks w))"
  by (induction ks arbitrary: w) (simp_all add: distinct_decay_one)

lemma distinct_decay_weights:
  "distinct (map fst ws) \<Longrightarrow> distinct (map fst (decay_weights dec ws))"
  by (simp add: decay_weights_def distinct_fold_decay_one)

lemma map_of_hebb_update:
  "map_of (hebb_update s p ws) k =
     (if k = pair_key p
      then Some (min (get_default ws (pair_key p) + hebb_increment s (fst p) (snd p)) (max_weight s))
      else map_of ws k)"
  by (simp add: hebb_update_def Let_def update_conv')

lemma keys_hebb_update: "fst ` set (hebb_update s p ws) = insert (pair_key p) (fst ` set ws)"
  by (simp add: hebb_update_def Let_def dom_update)

lemma distinct_hebb_update: "distinct (map fst ws) \<Longrightarrow> distinct (map fst (hebb_update s p ws))"
  by (simp add: hebb_update_def Let_def distinct_update)

lemma keys_fold_hebb:
  "fst ` set (fold (hebb_update s) ps ws) = pair_key ` set ps \<union> fst ` set ws"
proof (induction ps arbitrary: ws)
  case Nil show ?case by simp
next
  case (Cons p ps)
  show ?case by (simp add: Cons keys_hebb_update)
qed

lemma distinct_fold_hebb:
  "distinct (map fst ws) \<Longrightarrow> distinct (map fst (fold (hebb_update s) ps ws))"
  by (induction ps arbitrary: ws) (simp_all add: distinct_hebb_update)

lemma fold_hebb_untouched:
  "k \<notin> pair_key ` set ps \<Longrightarrow> map_of (fold (hebb_update s) ps ws) k = map_of ws k"
proof (induction ps arbitrary: ws)
  case Nil show ?case by simp
next
  case (Cons p ps)
  then show ?case by (simp add: map_of_hebb_update)
qed

lemma fold_hebb_exact:
  assumes "distinct (map pair_key ps)" "p \<in> set ps"
  shows "map_of (fold (hebb_update s) ps ws) (pair_key p) =
         Some (min (get_default ws (pair_key p) + hebb_increment s (fst p) (snd p)) (max_weight s))"
  using assms
proof (induction ps arbitrary: ws)
  case Nil then show ?case by simp
next
  case (Cons q ps)
  have nq: "pair_key q \<notin> pair_key ` set ps" and d: "distinct (map pair_key ps)"
    using Cons.prems(1) by simp_all
  show ?case
  proof (cases "p = q")
    case True
    then show ?thesis using nq by (simp add: fold_hebb_untouched map_of_hebb_update)
  next
    case False
    then have p: "p \<in> set ps" using Cons.prems(2) by simp
    then have "pair_key p \<in> pair_key ` set ps" by (rule imageI)
    then have ne: "pair_key p \<noteq> pair_key q" using nq by metis
    have "get_default (hebb_update s q ws) (pair_key p) = get_default ws (pair_key p)"
      using ne by (simp add: get_default_def map_of_hebb_update)
    then show ?thesis using Cons.IH [OF d p, of "hebb_update s q ws"] by simp
  qed
qed


lemma index_pairs_sub: "(x, y) \<in> set (index_pairs xs) \<Longrightarrow> x \<in> set xs \<and> y \<in> set xs"
  by (induction xs) auto

lemma index_pairs_neq: "distinct xs \<Longrightarrow> (x, y) \<in> set (index_pairs xs) \<Longrightarrow> x \<noteq> y"
  by (induction xs) (auto dest: index_pairs_sub)

lemma index_pairs_total:
  "x \<in> set xs \<Longrightarrow> y \<in> set xs \<Longrightarrow> x \<noteq> y
   \<Longrightarrow> (x, y) \<in> set (index_pairs xs) \<or> (y, x) \<in> set (index_pairs xs)"
  by (induction xs) auto

lemma pair_key_lt: "a < b \<Longrightarrow> pair_key (a, b) = (a, b) \<and> pair_key (b, a) = (a, b)"
  using less_not_sym [of a b] by (simp add: pair_key_def)

lemma pair_key_swap: "a \<noteq> b \<Longrightarrow> pair_key (a, b) = pair_key (b, a)"
  using pair_key_lt [of a b] pair_key_lt [of b a] by (cases a b rule: linorder_cases) simp_all

lemma pair_key_less: "fst p \<noteq> snd p \<Longrightarrow> fst (pair_key p) < snd (pair_key p)"
  using pair_key_lt [of "fst p" "snd p"] pair_key_lt [of "snd p" "fst p"]
  by (cases "fst p" "snd p" rule: linorder_cases) simp_all

lemma pair_key_components:
  "{fst (pair_key p), snd (pair_key p)} = {fst p, snd p}"
  by (cases "fst p < snd p") (simp_all add: pair_key_def insert_commute)

lemma pair_keys_index_pairs:
  assumes "distinct xs"
  shows "pair_key ` set (index_pairs xs) = {(a, b). a \<in> set xs \<and> b \<in> set xs \<and> a < b}"
proof (intro set_eqI iffI)
  fix k assume "k \<in> pair_key ` set (index_pairs xs)"
  then obtain p where p: "p \<in> set (index_pairs xs)" and k: "k = pair_key p"
    by (rule imageE)
  obtain x y where xy: "p = (x, y)" by (cases p)
  have x: "x \<in> set xs" and y: "y \<in> set xs"
    using p index_pairs_sub [of x y xs] unfolding xy by simp_all
  have ne: "x \<noteq> y" using p index_pairs_neq [OF assms, of x y] unfolding xy by simp
  have "fst k < snd k" unfolding k xy using pair_key_less [of "(x, y)"] ne by simp
  moreover have "{fst k, snd k} = {x, y}"
    unfolding k xy using pair_key_components [of "(x, y)"] by simp
  then have "fst k \<in> set xs \<and> snd k \<in> set xs"
    using x y by (simp add: doubleton_eq_iff) blast
  ultimately show "k \<in> {(a, b). a \<in> set xs \<and> b \<in> set xs \<and> a < b}"
    by (simp add: case_prod_beta)
next
  fix k assume "k \<in> {(a, b). a \<in> set xs \<and> b \<in> set xs \<and> a < b}"
  then have a: "fst k \<in> set xs" and b: "snd k \<in> set xs" and ab: "fst k < snd k"
    by (simp_all add: case_prod_beta)
  have ne: "fst k \<noteq> snd k" using ab by (rule less_imp_neq)
  from index_pairs_total [OF a b ne]
  show "k \<in> pair_key ` set (index_pairs xs)"
  proof
    assume m: "(fst k, snd k) \<in> set (index_pairs xs)"
    have "pair_key (fst k, snd k) = k" using pair_key_lt [OF ab] by simp
    then show ?thesis using m by (metis imageI)
  next
    assume m: "(snd k, fst k) \<in> set (index_pairs xs)"
    have "pair_key (snd k, fst k) = k" using pair_key_lt [OF ab] by simp
    then show ?thesis using m by (metis imageI)
  qed
qed

lemma pair_key_Pair_inj:
  assumes "pair_key (x, y) = pair_key (x, y')"
  shows "y = y'"
proof -
  have "{x, y} = {x, y'}"
    using pair_key_components [of "(x, y)"] pair_key_components [of "(x, y')"] assms by simp
  then show ?thesis by (simp add: doubleton_eq_iff) blast
qed

lemma distinct_pair_keys:
  "distinct xs \<Longrightarrow> distinct (map pair_key (index_pairs xs))"
proof (induction xs)
  case Nil show ?case by simp
next
  case (Cons x xs)
  have d: "distinct xs" and x: "x \<notin> set xs" using Cons.prems by simp_all
  have 1: "distinct (map pair_key (map (Pair x) xs))"
    using d by (simp add: distinct_map comp_def inj_on_def) (metis pair_key_Pair_inj)
  have 2: "pair_key ` Pair x ` set xs \<inter> pair_key ` set (index_pairs xs) = {}"
  proof (rule ccontr)
    assume "\<not> ?thesis"
    then obtain k where k1: "k \<in> pair_key ` Pair x ` set xs"
      and k2: "k \<in> pair_key ` set (index_pairs xs)" by blast
    from k1 obtain y where y: "y \<in> set xs" and ky: "k = pair_key (x, y)" by blast
    from k2 obtain p where p: "p \<in> set (index_pairs xs)" and kp: "k = pair_key p" by blast
    have e: "pair_key (x, y) = pair_key p" using ky kp by simp
    have "{fst p, snd p} \<subseteq> set xs" using p index_pairs_sub [of "fst p" "snd p" xs] by simp
    moreover have "x \<in> {fst p, snd p}"
      using pair_key_components [of "(x, y)"] pair_key_components [of p] e by auto
    ultimately show False using x by auto
  qed
  show ?case using 1 2 Cons.IH [OF d] by (simp add: image_image)
qed

section \<open>Stimulation with a dangling link\<close>

lemma dangling_heap_concept:
  "ensembles_by_id (con_heap dangling_heap 10) = [(101, 11)]"
  "ensembles_by_name (con_heap dangling_heap 10) = [(''shape'', 101)]"
  "inhibition_gain (con_heap dangling_heap 10) = 1 / 4"
  by (simp_all add: dangling_heap_def heap_defs)

lemma dangling_heap_ensemble:
  "links (ens_heap dangling_heap 11) = [(999, 2 / 10)]"
  "vector (ens_heap dangling_heap 11) = [1, 0]"
  "activation (ens_heap dangling_heap 11) = 0"
  by (simp_all add: dangling_heap_def heap_defs)

lemma direct_dangling:
  "activation (ens_heap (direct_activation 10 [(''shape'', [1, 0])] 1 dangling_heap) 11) = 1"
  "links (ens_heap (direct_activation 10 [(''shape'', [1, 0])] 1 dangling_heap) 11) = [(999, 2 / 10)]"
  "con_heap (direct_activation 10 [(''shape'', [1, 0])] 1 dangling_heap) = con_heap dangling_heap"
  by (simp_all add: direct_activation_def get_ensemble_def dangling_heap_concept
      dangling_heap_ensemble similarity_def cosine_def upd_ens_def)

text \<open>
  C2 fails on the code. The concept of \<open>dangling_heap\<close> holds one ensemble with a link
  to an identity it does not contain. A cue that gives the ensemble a positive
  activation makes the spread add the dangling target to \<^verbatim>\<open>delta\<close>, and the
  subscript \<^verbatim>\<open>self.ensembles_by_id[t_id]\<close> then raises \<^verbatim>\<open>KeyError\<close>:
  \<^verbatim>\<open>stimulate\<close> does not return.
\<close>

theorem stimulate_dangling_link_raises:
  "fst (stimulate round4 10 [(''shape'', [1, 0])] 1 dangling_heap) = Inl KeyError"
  by (simp add: stimulate_def spread_def spread_delta_def link_deltas_def direct_dangling
      dangling_heap_concept get_default_def Let_def upd_ens_def split: prod.splits)

section \<open>Merging: the links of the second concept\<close>

text \<open>
  C1 fails on the code. In \<open>merge_heap\<close> concept A is empty and concept B holds
  \<open>shape\<close> and \<open>color\<close> with a link of weight \<open>0.2\<close> from \<open>shape\<close> to
  \<open>color\<close>. Both ensembles of B are copied into the merged concept (address 14) under
  their own names, as the ensembles at addresses 15 and 16, but \<^verbatim>\<open>copy_links(b,
  suffix="__B")\<close> looks every ensemble of B up under its name with the suffix, finds
  none, and copies no link: the copy of \<open>shape\<close> has no link to the copy of
  \<open>color\<close>.
\<close>

theorem merge_drops_links_of_B:
  "case merge_concepts unary 10 11 ''Merged'' merge_heap of
     (res, h') \<Rightarrow>
       (\<exists>delta nts. res = Inr (Some 14, delta, nts))
       \<and> ensembles_by_name (con_heap h' 14) = [(''shape'', 105), (''color'', 106)]
       \<and> ensembles_by_id (con_heap h' 14) = [(105, 15), (106, 16)]
       \<and> links (ens_heap h' 15) = [] \<and> links (ens_heap h' 16) = []"
  by (simp add: merge_concepts_def merge_provenance_def copy_concept_shallow_def copy_ensemble_def ensemble_refs_def
      ensemble_name_set_def merge_name_to_id_def list_relations_def
      merge_heap_objects new_Concept_def new_FeatureEnsemble_def uuid4_def add_ensemble_def
      add_relationship_def upd_con_def upd_ens_def Let_def split: prod.splits)

section \<open>The name index and the identity map\<close>

lemma index_agrees_new:
  assumes "new_Concept nm descr md ig thr h0 = (c, h)"
  shows "index_agrees strict (con_heap h c)"
proof -
  have "ensembles_by_id (con_heap h c) = []" "ensembles_by_name (con_heap h c) = []"
    using assms by (auto simp: new_Concept_def uuid4_def Let_def)
  then show ?thesis by (simp add: index_agrees_def)
qed

lemma index_agrees_add_ensemble:
  assumes "index_agrees strict (con_heap h c)" and "strict \<Longrightarrow> name_free h c e"
  shows "index_agrees strict (con_heap (add_ensemble c e h) c)"
proof -
  let ?k = "con_heap h c"
  let ?id = "ensemble_id (ens_heap h e)"
  let ?nm = "e_name (ens_heap h e)"
  have bi: "map_of (ensembles_by_id (con_heap (add_ensemble c e h) c)) = (map_of (ensembles_by_id ?k))(?id \<mapsto> e)"
    and bn: "map_of (ensembles_by_name (con_heap (add_ensemble c e h) c)) = (map_of (ensembles_by_name ?k))(?nm \<mapsto> ?id)"
    by (simp_all add: add_ensemble_def Let_def update_conv')
  have 1: "\<forall>n i. map_of (ensembles_by_name ?k) n = Some i \<longrightarrow> map_of (ensembles_by_id ?k) i \<noteq> None"
    using assms(1) by (simp add: index_agrees_def)
  have a: "\<forall>n i. ((map_of (ensembles_by_name ?k))(?nm \<mapsto> ?id)) n = Some i
             \<longrightarrow> ((map_of (ensembles_by_id ?k))(?id \<mapsto> e)) i \<noteq> None"
    using 1 by auto
  have b: "\<forall>i r. ((map_of (ensembles_by_id ?k))(?id \<mapsto> e)) i = Some r
             \<longrightarrow> (\<exists>n. ((map_of (ensembles_by_name ?k))(?nm \<mapsto> ?id)) n = Some i)" if st: strict
  proof (intro allI impI)
    fix i r assume ir: "((map_of (ensembles_by_id ?k))(?id \<mapsto> e)) i = Some r"
    show "\<exists>n. ((map_of (ensembles_by_name ?k))(?nm \<mapsto> ?id)) n = Some i"
    proof (cases "i = ?id")
      case True then show ?thesis by (intro exI [of _ ?nm]) simp
    next
      case False
      then have "map_of (ensembles_by_id ?k) i = Some r" using ir by simp
      then obtain n where n: "map_of (ensembles_by_name ?k) n = Some i"
        using assms(1) st by (auto simp: index_agrees_def)
      have "n \<noteq> ?nm"
      proof
        assume "n = ?nm"
        then have "i = ?id" using n assms(2) [OF st] by (simp add: name_free_def)
        then show False using False by simp
      qed
      then show ?thesis using n by (intro exI [of _ n]) simp
    qed
  qed
  show ?thesis unfolding index_agrees_def bi bn using a b by blast
qed

lemma concept_states_index_agrees:
  "concept_states strict c h \<Longrightarrow> index_agrees strict (con_heap h c)"
proof (induction rule: concept_states.induct)
  case (cs_new nm descr md ig thr h0 c h strict)
  then show ?case by (rule index_agrees_new)
next
  case (cs_add_ensemble strict c h e)
  then show ?case by (intro index_agrees_add_ensemble) 
next
  case (cs_stimulate strict c h round4 cues gain)
  then show ?case by (simp add: con_heap_stimulate)
next
  case (cs_learn_hebbian strict c h lr ma)
  then show ?case by (simp add: con_heap_learn_hebbian)
next
  case (cs_add_relationship strict c h rt t descr)
  then show ?case by (simp add: add_relationship_def index_agrees_def)
next
  case (cs_decay_all strict c h fraction)
  then show ?case by (simp add: con_heap_decay_all)
next
  case (cs_new_ensemble strict c h nm md vec descr)
  then show ?case by (simp add: con_heap_new_FeatureEnsemble)
next
  case (cs_add_link strict c h e t w)
  then show ?case by (simp add: con_heap_add_link)
qed

lemma dangling_heap_states: "concept_states True 10 dangling_heap"
proof -
  let ?h1 = "snd (new_Concept ''Dog'' [] None (1 / 4) (15 / 100) blank_heap)"
  let ?h2 = "snd (new_FeatureEnsemble ''shape'' ''vision'' [1, 0] [] ?h1)"
  have "new_Concept ''Dog'' [] None (1 / 4) (15 / 100) blank_heap = (10, ?h1)"
    by (simp add: heap_defs prod_eq_iff)
  then have "concept_states True 10 ?h1" by (rule cs_new)
  then have "concept_states True 10 (add_ensemble 10 11 (add_link 11 999 (2 / 10) ?h2))"
    by (intro cs_add_ensemble cs_add_link cs_new_ensemble) (simp_all add: name_free_def heap_defs)
  moreover have "dangling_heap = add_ensemble 10 11 (add_link 11 999 (2 / 10) ?h2)"
    by (simp add: dangling_heap_def heap_defs)
  ultimately show ?thesis by simp
qed

text \<open>
  C3 as amended. In every store reachable by the public operations from a fresh concept,
  every name of \<^verbatim>\<open>ensembles_by_name\<close> maps to an identity that is present in
  \<^verbatim>\<open>ensembles_by_id\<close>. Every identity of \<^verbatim>\<open>ensembles_by_id\<close> is reached from some
  name when no \<^verbatim>\<open>add_ensemble\<close> call used a name that the index already mapped to a
  different identity (\<open>strict\<close>): \<^verbatim>\<open>add_ensemble\<close> overwrites the name index on a
  collision and keeps the earlier ensemble in the identity map.
\<close>

theorem name_index_agrees_amended:
  assumes "concept_states strict c h"
  shows "(\<forall>n i. map_of (ensembles_by_name (con_heap h c)) n = Some i
              \<longrightarrow> (\<exists>r. map_of (ensembles_by_id (con_heap h c)) i = Some r))
       \<and> (strict \<longrightarrow> (\<forall>i r. map_of (ensembles_by_id (con_heap h c)) i = Some r
                         \<longrightarrow> (\<exists>n. map_of (ensembles_by_name (con_heap h c)) n = Some i)))"
  using concept_states_index_agrees [OF assms] by (simp add: index_agrees_def)

theorem name_index_agrees_amended_witness:
  "concept_states True 10 dangling_heap
   \<and> map_of (ensembles_by_name (con_heap dangling_heap 10)) ''shape'' = Some 101
   \<and> (\<exists>r. map_of (ensembles_by_id (con_heap dangling_heap 10)) 101 = Some r)
   \<and> (\<exists>n. map_of (ensembles_by_name (con_heap dangling_heap 10)) n = Some 101)"
proof -
  have n: "map_of (ensembles_by_name (con_heap dangling_heap 10)) ''shape'' = Some 101"
    by (simp add: dangling_heap_def heap_defs)
  from name_index_agrees_amended [OF dangling_heap_states] have
    a: "\<forall>n i. map_of (ensembles_by_name (con_heap dangling_heap 10)) n = Some i
              \<longrightarrow> (\<exists>r. map_of (ensembles_by_id (con_heap dangling_heap 10)) i = Some r)" and
    b: "\<forall>i r. map_of (ensembles_by_id (con_heap dangling_heap 10)) i = Some r
              \<longrightarrow> (\<exists>n. map_of (ensembles_by_name (con_heap dangling_heap 10)) n = Some i)"
    by simp_all
  from a n have r: "\<exists>r. map_of (ensembles_by_id (con_heap dangling_heap 10)) 101 = Some r" by blast
  with b have "\<exists>n. map_of (ensembles_by_name (con_heap dangling_heap 10)) n = Some 101" by blast
  then show ?thesis using dangling_heap_states n r by blast
qed

lemma collide_heap_concept:
  "ensembles_by_id (con_heap collide_heap 10) = [(101, 11), (102, 12)]"
  "ensembles_by_name (con_heap collide_heap 10) = [(''shape'', 102)]"
  by (simp_all add: collide_heap_def heap_defs)

lemma collide_heap_states: "concept_states False 10 collide_heap"
proof -
  have "new_Concept ''Dog'' [] None (1 / 4) (15 / 100) blank_heap
        = (10, snd (new_Concept ''Dog'' [] None (1 / 4) (15 / 100) blank_heap))"
    by (simp add: heap_defs prod_eq_iff)
  then have "concept_states False 10 (snd (new_Concept ''Dog'' [] None (1 / 4) (15 / 100) blank_heap))"
    by (rule cs_new)
  then show ?thesis
    unfolding collide_heap_def
    by (intro cs_add_ensemble cs_new_ensemble) simp_all
qed

text \<open>
  C3 as stated fails: after two ensembles of the same name are registered, the first
  one is still in \<^verbatim>\<open>ensembles_by_id\<close> and no name leads to it.
\<close>

theorem name_index_agrees_counterexample:
  "concept_states False 10 collide_heap
   \<and> map_of (ensembles_by_id (con_heap collide_heap 10)) 101 = Some 11
   \<and> 101 \<notin> snd ` set (ensembles_by_name (con_heap collide_heap 10))"
  using collide_heap_states by (simp add: collide_heap_concept)



section \<open>The firing window of a step\<close>

lemma activate_step_fired:
  "fst (activate_step dt s) = set (fired_keys (t_now s) (step_end dt s) (scheduled s))"
  by (simp add: activate_step_def Let_def step_end_def)


lemma activate_step_weights:
  "weights (snd (activate_step dt s)) =
     fold (hebb_update s) (index_pairs (fired_keys (t_now s) (step_end dt s) (scheduled s)))
       (decay_weights (decay s) (weights s))"
  by (simp add: activate_step_def Let_def step_end_def)






section \<open>The one-hop spread\<close>

lemma weight_to_simps [simp]:
  "weight_to t [] = 0"
  "weight_to t ((k, w) # xs) = (if k = t then w else 0) + weight_to t xs"
  by (simp_all add: weight_to_def)



















section \<open>Decay, pruning and the cap on the weights\<close>

lemma seeded_facts:
  "weights seeded = [((''a'', ''b''), 2 / 10 ^ 6)]" "decay seeded = 4 / 10" "scheduled seeded = []"
  by (simp_all add: seeded_def new_CellEnsembleRT_def)

text \<open>
  C7. In a step, every weight of the map is first multiplied by the decay factor and
  dropped when the product is below \<open>1e-6\<close> in absolute value; a pair that did not
  fire together keeps exactly that decayed weight, so a weight of \<open>2e-6\<close> under decay
  \<open>0.4\<close> is absent after the step. A pair that fired together gets the decayed weight
  (zero when absent) plus its Hebbian increment, capped at \<open>max_weight\<close>, so its weight
  is never above \<open>max_weight\<close> after the update. The weight map is a dictionary: its
  keys are distinct.
\<close>

theorem activate_step_decay_and_cap:
  assumes "distinct (map fst (weights s))"
    and "activate_step dt s = (fired, s')"
  shows "(\<forall>k. map_of (decay_weights (decay s) (weights s)) k
              = decayed (decay s) (map_of (weights s) k))
       \<and> (\<forall>k. k \<notin> {(a, b). a \<in> fired \<and> b \<in> fired \<and> a < b}
              \<longrightarrow> map_of (weights s') k = decayed (decay s) (map_of (weights s) k))
       \<and> (\<forall>a b. a \<in> fired \<and> b \<in> fired \<and> a < b
              \<longrightarrow> (\<exists>v x y. map_of (weights s') (a, b) = Some v \<and> v \<le> max_weight s
                     \<and> {x, y} = {a, b}
                     \<and> v = min (get_default (decay_weights (decay s) (weights s)) (a, b)
                                 + hebb_increment s x y) (max_weight s)))"
proof -
  let ?fk = "fired_keys (t_now s) (step_end dt s) (scheduled s)"
  let ?ws1 = "decay_weights (decay s) (weights s)"
  have f: "fired = set ?fk" using assms(2) activate_step_fired [of dt s] by simp
  have w: "weights s' = fold (hebb_update s) (index_pairs ?fk) ?ws1"
    using assms(2) activate_step_weights [of dt s] by simp
  have keys: "pair_key ` set (index_pairs ?fk) = {(a, b). a \<in> fired \<and> b \<in> fired \<and> a < b}"
    unfolding f by (rule pair_keys_index_pairs) (rule distinct_fired_keys)
  have 1: "\<forall>k. map_of ?ws1 k = decayed (decay s) (map_of (weights s) k)"
    using map_of_decay_weights [OF assms(1)] by simp
  have 2: "\<forall>k. k \<notin> {(a, b). a \<in> fired \<and> b \<in> fired \<and> a < b}
              \<longrightarrow> map_of (weights s') k = decayed (decay s) (map_of (weights s) k)"
    unfolding w keys [symmetric] using 1 by (simp add: fold_hebb_untouched)
  have 3: "\<forall>a b. a \<in> fired \<and> b \<in> fired \<and> a < b
              \<longrightarrow> (\<exists>v x y. map_of (weights s') (a, b) = Some v \<and> v \<le> max_weight s
                     \<and> {x, y} = {a, b}
                     \<and> v = min (get_default ?ws1 (a, b) + hebb_increment s x y) (max_weight s))"
  proof (intro allI impI)
    fix a b assume ab: "a \<in> fired \<and> b \<in> fired \<and> a < b"
    then have "(a, b) \<in> pair_key ` set (index_pairs ?fk)" unfolding keys by simp
    then obtain p where p: "p \<in> set (index_pairs ?fk)" and k: "(a, b) = pair_key p"
      by (rule imageE)
    have d: "distinct (map pair_key (index_pairs ?fk))"
      by (rule distinct_pair_keys) (rule distinct_fired_keys)
    have v: "map_of (weights s') (a, b) =
          Some (min (get_default ?ws1 (a, b) + hebb_increment s (fst p) (snd p)) (max_weight s))"
      unfolding w k by (rule fold_hebb_exact [OF d p])
    have c: "{fst p, snd p} = {a, b}"
      using pair_key_components [of p] k [symmetric] by simp
    show "\<exists>v x y. map_of (weights s') (a, b) = Some v \<and> v \<le> max_weight s
                     \<and> {x, y} = {a, b}
                     \<and> v = min (get_default ?ws1 (a, b) + hebb_increment s x y) (max_weight s)"
      using v c by (intro exI [of _ "min (get_default ?ws1 (a, b) + hebb_increment s (fst p) (snd p)) (max_weight s)"]
          exI [of _ "fst p"] exI [of _ "snd p"]) simp
  qed
  show ?thesis using 1 2 3 by (intro conjI)
qed

theorem activate_step_decay_and_cap_witness:
  "distinct (map fst (weights seeded))
   \<and> map_of (weights seeded) (''a'', ''b'') = Some (2 / 10 ^ 6)
   \<and> (case activate_step None seeded of (fired, s') \<Rightarrow>
         fired = {} \<and> map_of (weights s') (''a'', ''b'') = None)"
proof -
  have d: "distinct (map fst (weights seeded))" by (simp add: seeded_facts)
  obtain fired s' where e: "activate_step None seeded = (fired, s')"
    by (cases "activate_step None seeded")
  have f: "fired = {}"
    using e activate_step_fired [of None seeded] by (simp add: set_fired_keys seeded_facts)
  have "map_of (weights s') (''a'', ''b'') = decayed (decay seeded) (map_of (weights seeded) (''a'', ''b''))"
    using activate_step_decay_and_cap [OF d e] f by simp
  then have "map_of (weights s') (''a'', ''b'') = None"
    by (simp add: seeded_facts decayed_def)
  then show ?thesis using d e f by (simp add: seeded_facts)
qed

section \<open>The operations on concepts leave their inputs unchanged\<close>

lemma fresh_buildD:
  assumes "fresh_build h0 c h"
  shows "r < next_ref h0 \<Longrightarrow> ens_heap h r = ens_heap h0 r"
    and "r < next_ref h0 \<Longrightarrow> con_heap h r = con_heap h0 r"
    and "next_ref h0 \<le> next_ref h" and "next_ref h0 \<le> c"
    and "(k, x) \<in> set (ensembles_by_id (con_heap h c)) \<Longrightarrow> next_ref h0 \<le> x"
proof -
  show "r < next_ref h0 \<Longrightarrow> ens_heap h r = ens_heap h0 r"
    using assms unfolding fresh_build_def by blast
  show "r < next_ref h0 \<Longrightarrow> con_heap h r = con_heap h0 r"
    using assms unfolding fresh_build_def by blast
  show "next_ref h0 \<le> next_ref h" using assms unfolding fresh_build_def by blast
  show "next_ref h0 \<le> c" using assms unfolding fresh_build_def by blast
  show "(k, x) \<in> set (ensembles_by_id (con_heap h c)) \<Longrightarrow> next_ref h0 \<le> x"
    using assms unfolding fresh_build_def by force
qed

lemma fresh_buildI:
  assumes "\<And>r. r < next_ref h0 \<Longrightarrow> ens_heap h r = ens_heap h0 r"
    and "\<And>r. r < next_ref h0 \<Longrightarrow> con_heap h r = con_heap h0 r"
    and "next_ref h0 \<le> next_ref h" and "next_ref h0 \<le> c"
    and "\<And>k x. (k, x) \<in> set (ensembles_by_id (con_heap h c)) \<Longrightarrow> next_ref h0 \<le> x"
  shows "fresh_build h0 c h"
  unfolding fresh_build_def using assms by force

lemma copy_concept_shallow_fields:
  "fst (copy_concept_shallow a nm h) = next_ref h"
  "next_ref (snd (copy_concept_shallow a nm h)) = Suc (next_ref h)"
  "ens_heap (snd (copy_concept_shallow a nm h)) = ens_heap h"
  "r \<noteq> next_ref h \<Longrightarrow> con_heap (snd (copy_concept_shallow a nm h)) r = con_heap h r"
  "ensembles_by_id (con_heap (snd (copy_concept_shallow a nm h)) (next_ref h)) = []"
  by (simp_all add: copy_concept_shallow_def new_Concept_def uuid4_def Let_def)

lemma fresh_build_copy_concept_shallow:
  "fresh_build h (fst (copy_concept_shallow a nm h)) (snd (copy_concept_shallow a nm h))"
  by (rule fresh_buildI) (simp_all add: copy_concept_shallow_fields)

lemma fresh_build_upd_ens:
  assumes "fresh_build h0 c h" and "next_ref h0 \<le> r"
  shows "fresh_build h0 c (upd_ens r f h)"
proof (rule fresh_buildI)
  fix x assume "x < next_ref h0"
  then show "ens_heap (upd_ens r f h) x = ens_heap h0 x"
    using assms(2) fresh_buildD(1) [OF assms(1), of x] by simp
next
  fix x assume "x < next_ref h0"
  then show "con_heap (upd_ens r f h) x = con_heap h0 x"
    using fresh_buildD(2) [OF assms(1), of x] by simp
next
  show "next_ref h0 \<le> next_ref (upd_ens r f h)" using fresh_buildD(3) [OF assms(1)] by simp
  show "next_ref h0 \<le> c" using fresh_buildD(4) [OF assms(1)] .
next
  fix k x assume "(k, x) \<in> set (ensembles_by_id (con_heap (upd_ens r f h) c))"
  then show "next_ref h0 \<le> x" using fresh_buildD(5) [OF assms(1), of k x] by simp
qed

lemma fresh_build_add_relationship:
  assumes "fresh_build h0 c h"
  shows "fresh_build h0 c (add_relationship c rt t descr h)"
proof (rule fresh_buildI)
  fix x assume "x < next_ref h0"
  then show "ens_heap (add_relationship c rt t descr h) x = ens_heap h0 x"
    using fresh_buildD(1) [OF assms, of x] by (simp add: add_relationship_def)
next
  fix x assume x: "x < next_ref h0"
  then have "x \<noteq> c" using fresh_buildD(4) [OF assms] by simp
  then show "con_heap (add_relationship c rt t descr h) x = con_heap h0 x"
    using fresh_buildD(2) [OF assms, of x] x by (simp add: add_relationship_def)
next
  show "next_ref h0 \<le> next_ref (add_relationship c rt t descr h)"
    using fresh_buildD(3) [OF assms] by (simp add: add_relationship_def)
  show "next_ref h0 \<le> c" using fresh_buildD(4) [OF assms] .
next
  fix k x assume "(k, x) \<in> set (ensembles_by_id (con_heap (add_relationship c rt t descr h) c))"
  then show "next_ref h0 \<le> x" using fresh_buildD(5) [OF assms, of k x]
    by (simp add: add_relationship_def)
qed

lemma set_update_subset: "set (AList.update k v al) \<subseteq> insert (k, v) (set al)"
  by (induction al) auto

lemma copy_ensemble_fields:
  "fst (copy_ensemble c nm r h) = next_ref h"
  "next_ref (snd (copy_ensemble c nm r h)) = Suc (next_ref h)"
  "x \<noteq> next_ref h \<Longrightarrow> ens_heap (snd (copy_ensemble c nm r h)) x = ens_heap h x"
  "x \<noteq> c \<Longrightarrow> con_heap (snd (copy_ensemble c nm r h)) x = con_heap h x"
  "ensembles_by_id (con_heap (snd (copy_ensemble c nm r h)) c) =
     AList.update (uuid_src h (uuid_idx h)) (next_ref h) (ensembles_by_id (con_heap h c))"
  by (simp_all add: copy_ensemble_def new_FeatureEnsemble_def uuid4_def add_ensemble_def Let_def)

lemma fresh_build_copy_ensemble:
  assumes "fresh_build h0 c h"
  shows "fresh_build h0 c (snd (copy_ensemble c nm r h))"
proof (rule fresh_buildI)
  fix x assume x: "x < next_ref h0"
  have "x \<noteq> next_ref h" using x fresh_buildD(3) [OF assms] by simp
  then have "ens_heap (snd (copy_ensemble c nm r h)) x = ens_heap h x"
    by (rule copy_ensemble_fields(3))
  then show "ens_heap (snd (copy_ensemble c nm r h)) x = ens_heap h0 x"
    using fresh_buildD(1) [OF assms x] by simp
next
  fix x assume x: "x < next_ref h0"
  have "x \<noteq> c" using x fresh_buildD(4) [OF assms] by simp
  then have "con_heap (snd (copy_ensemble c nm r h)) x = con_heap h x"
    by (rule copy_ensemble_fields(4))
  then show "con_heap (snd (copy_ensemble c nm r h)) x = con_heap h0 x"
    using fresh_buildD(2) [OF assms x] by simp
next
  show "next_ref h0 \<le> next_ref (snd (copy_ensemble c nm r h))"
    using fresh_buildD(3) [OF assms] by (simp add: copy_ensemble_fields(2))
  show "next_ref h0 \<le> c" using fresh_buildD(4) [OF assms] .
next
  fix k x assume m: "(k, x) \<in> set (ensembles_by_id (con_heap (snd (copy_ensemble c nm r h)) c))"
  have "set (AList.update (uuid_src h (uuid_idx h)) (next_ref h) (ensembles_by_id (con_heap h c)))
        \<subseteq> insert (uuid_src h (uuid_idx h), next_ref h) (set (ensembles_by_id (con_heap h c)))"
    by (rule set_update_subset)
  then have "(k, x) = (uuid_src h (uuid_idx h), next_ref h) \<or> (k, x) \<in> set (ensembles_by_id (con_heap h c))"
    using m unfolding copy_ensemble_fields(5) by blast
  then show "next_ref h0 \<le> x"
  proof
    assume "(k, x) = (uuid_src h (uuid_idx h), next_ref h)"
    then show ?thesis using fresh_buildD(3) [OF assms] by simp
  next
    assume "(k, x) \<in> set (ensembles_by_id (con_heap h c))"
    then show ?thesis by (rule fresh_buildD(5) [OF assms])
  qed
qed

lemma fresh_build_fold:
  assumes "\<And>x h. fresh_build h0 c h \<Longrightarrow> fresh_build h0 c (f x h)" and "fresh_build h0 c h"
  shows "fresh_build h0 c (fold f xs h)"
  using assms(2) by (induction xs arbitrary: h) (simp_all add: assms(1))


lemma copy_link_entries_step:
  "copy_link_entries n2i src suffix se ((tid, w) # rest) h = (Inl KeyError, h)
   \<or> copy_link_entries n2i src suffix se ((tid, w) # rest) h
       = copy_link_entries n2i src suffix se rest h
   \<or> (\<exists>f. copy_link_entries n2i src suffix se ((tid, w) # rest) h
            = copy_link_entries n2i src suffix se rest (upd_ens se f h))"
proof (cases "map_of (ensembles_by_id (con_heap h src)) tid")
  case None then show ?thesis by simp
next
  case (Some tr)
  let ?t2 = "if suffix = [] then e_name (ens_heap h tr) else e_name (ens_heap h tr) @ suffix"
  show ?thesis
  proof (cases "map_of n2i ?t2")
    case None
    then have "copy_link_entries n2i src suffix se ((tid, w) # rest) h
       = copy_link_entries n2i src suffix se rest h"
      using Some by (simp add: Let_def)
    then show ?thesis by blast
  next
    case (Some tid2)
    have "copy_link_entries n2i src suffix se ((tid, w) # rest) h
       = copy_link_entries n2i src suffix se rest
           (upd_ens se (\<lambda>e. e\<lparr>links := AList.update tid2 w (links e)\<rparr>) h)"
      using \<open>map_of (ensembles_by_id (con_heap h src)) tid = Some tr\<close> Some by (simp add: Let_def)
    then show ?thesis by blast
  qed
qed

lemma fresh_build_copy_link_entries:
  assumes "next_ref h0 \<le> se"
  shows "fresh_build h0 c h \<Longrightarrow> fresh_build h0 c (snd (copy_link_entries n2i src suffix se lks h))"
proof (induction lks arbitrary: h)
  case Nil then show ?case by simp
next
  case (Cons p lks)
  obtain tid w where p: "p = (tid, w)" by (cases p)
  from copy_link_entries_step [of n2i src suffix se tid w lks h]
  show ?case unfolding p
  proof (elim disjE exE)
    assume "copy_link_entries n2i src suffix se ((tid, w) # lks) h = (Inl KeyError, h)"
    then show "fresh_build h0 c (snd (copy_link_entries n2i src suffix se ((tid, w) # lks) h))"
      using Cons.prems by simp
  next
    assume "copy_link_entries n2i src suffix se ((tid, w) # lks) h
       = copy_link_entries n2i src suffix se lks h"
    then show "fresh_build h0 c (snd (copy_link_entries n2i src suffix se ((tid, w) # lks) h))"
      using Cons.IH [OF Cons.prems] by simp
  next
    fix f assume "copy_link_entries n2i src suffix se ((tid, w) # lks) h
            = copy_link_entries n2i src suffix se lks (upd_ens se f h)"
    then show "fresh_build h0 c (snd (copy_link_entries n2i src suffix se ((tid, w) # lks) h))"
      using Cons.IH [OF fresh_build_upd_ens [OF Cons.prems assms]] by simp
  qed
qed


lemma fresh_build_copy_links:
  "fresh_build h0 c h \<Longrightarrow> fresh_build h0 c (snd (copy_links c n2i src suffix rs h))"
proof (induction rs arbitrary: h)
  case Nil then show ?case by simp
next
  case (Cons r rs)
  let ?sname = "if suffix = [] then e_name (ens_heap h r) else e_name (ens_heap h r) @ suffix"
  show ?case
  proof (cases "map_of n2i ?sname")
    case None
    then have "copy_links c n2i src suffix (r # rs) h = copy_links c n2i src suffix rs h"
      by (simp add: Let_def)
    then show ?thesis using Cons.IH [OF Cons.prems] by simp
  next
    case sid: (Some sid)
    show ?thesis
    proof (cases "map_of (ensembles_by_id (con_heap h c)) sid")
      case None
      then have "copy_links c n2i src suffix (r # rs) h = (Inl KeyError, h)"
        using sid by (simp add: Let_def)
      then show ?thesis using Cons.prems by simp
    next
      case (Some se)
      then have "(sid, se) \<in> set (ensembles_by_id (con_heap h c))" by (rule map_of_SomeD)
      then have se: "next_ref h0 \<le> se" by (rule fresh_buildD(5) [OF Cons.prems])
      obtain r1 h1 where e: "copy_link_entries n2i src suffix se (links (ens_heap h r)) h = (r1, h1)"
        by (cases "copy_link_entries n2i src suffix se (links (ens_heap h r)) h")
      have f1: "fresh_build h0 c h1"
        using fresh_build_copy_link_entries [OF se Cons.prems, of n2i src suffix "links (ens_heap h r)"] e
        by simp
      show ?thesis
      proof (cases r1)
        case (Inl err)
        then have "copy_links c n2i src suffix (r # rs) h = (Inl err, h1)"
          using sid Some e by (simp add: Let_def)
        then show ?thesis using f1 by simp
      next
        case (Inr u)
        then have "copy_links c n2i src suffix (r # rs) h = copy_links c n2i src suffix rs h1"
          using sid Some e by (simp add: Let_def)
        then show ?thesis using Cons.IH [OF f1] by simp
      qed
    qed
  qed
qed

lemma fresh_build_relink:
  "fresh_build h0 c h \<Longrightarrow> fresh_build h0 c (snd (relink c n2n a named h))"
proof (induction named arbitrary: h)
  case Nil then show ?case by simp
next
  case (Cons p named)
  obtain n ea where p: "p = (n, ea)" by (cases p)
  show ?case
  proof (cases "get_ensemble h c n")
    case None
    then have "relink c n2n a (p # named) h = relink c n2n a named h" by (simp add: p)
    then show ?thesis using Cons.IH [OF Cons.prems] by simp
  next
    case (Some se)
    then obtain i where "map_of (ensembles_by_id (con_heap h c)) i = Some se"
      by (auto simp: get_ensemble_def split: option.splits)
    then have "(i, se) \<in> set (ensembles_by_id (con_heap h c))" by (rule map_of_SomeD)
    then have se: "next_ref h0 \<le> se" by (rule fresh_buildD(5) [OF Cons.prems])
    obtain r1 h1 where e: "copy_link_entries n2n a [] se (links (ens_heap h ea)) h = (r1, h1)"
      by (cases "copy_link_entries n2n a [] se (links (ens_heap h ea)) h")
    have f1: "fresh_build h0 c h1"
      using fresh_build_copy_link_entries [OF se Cons.prems, of n2n a "[]" "links (ens_heap h ea)"] e
      by simp
    show ?thesis
    proof (cases r1)
      case (Inl err)
      then have "relink c n2n a (p # named) h = (Inl err, h1)" using Some e by (simp add: p)
      then show ?thesis using f1 by simp
    next
      case (Inr u)
      then have "relink c n2n a (p # named) h = relink c n2n a named h1" using Some e by (simp add: p)
      then show ?thesis using Cons.IH [OF f1] by simp
    qed
  qed
qed

lemma fresh_build_add_shared_rels:
  "fresh_build h0 c h \<Longrightarrow> fresh_build h0 c (snd (add_shared_rels parse_uuid c rels h))"
proof (induction rels arbitrary: h)
  case Nil then show ?case by simp
next
  case (Cons p rels)
  obtain rt ts where p: "p = (rt, ts)" by (cases p)
  show ?case
  proof (cases "parse_uuid ts")
    case None
    then show ?thesis using Cons.prems by (simp add: p)
  next
    case (Some t)
    then have "add_shared_rels parse_uuid c (p # rels) h
               = add_shared_rels parse_uuid c rels (add_relationship c rt t ''shared relation'' h)"
      by (simp add: p)
    then show ?thesis
      using Cons.IH [OF fresh_build_add_relationship [OF Cons.prems]] by simp
  qed
qed

lemma snd_copy_named_step:
  "snd (copy_named_step c p acc)
   = snd (copy_ensemble c (e_name (ens_heap (snd acc) (snd p))) (snd p) (snd acc))"
  by (cases p; cases acc) (simp add: copy_named_step_def case_prod_beta Let_def)

lemma fresh_build_copy_named:
  "fresh_build h0 c h \<Longrightarrow> fresh_build h0 c (snd (copy_named c keep h))"
proof -
  have "fresh_build h0 c (snd acc) \<Longrightarrow>
        fresh_build h0 c (snd (fold (copy_named_step c) keep acc))" for acc
  proof (induction keep arbitrary: acc)
    case Nil then show ?case by simp
  next
    case (Cons p keep)
    have "fresh_build h0 c (snd (copy_named_step c p acc))"
      unfolding snd_copy_named_step using Cons.prems by (rule fresh_build_copy_ensemble)
    then have "fresh_build h0 c (snd (fold (copy_named_step c) keep (copy_named_step c p acc)))"
      by (rule Cons.IH)
    then show ?case by simp
  qed
  from this [of "([], h)"]
  show "fresh_build h0 c h \<Longrightarrow> fresh_build h0 c (snd (copy_named c keep h))"
    by (simp add: copy_named_def)
qed


lemma merge_concepts_frame:
  "fresh_build h (next_ref h) (snd (merge_concepts str_uuid a b nm h))
   \<and> (case fst (merge_concepts str_uuid a b nm h) of
        Inl err \<Rightarrow> True | Inr (res, delta, nts) \<Rightarrow> res = Some (next_ref h))"
proof -
  define c where "c = next_ref h"
  define h1 where "h1 = snd (copy_concept_shallow a nm h)"
  define h2 where "h2 = fold (\<lambda>r h'. snd (copy_ensemble c (e_name (ens_heap h' r)) r h'))
                    (ensemble_refs h1 a) h1"
  define h3 where "h3 = fold (\<lambda>r h'. snd (copy_ensemble c
                       (if e_name (ens_heap h' r) \<notin> ensemble_name_set h' c
                        then e_name (ens_heap h' r) else e_name (ens_heap h' r) @ ''__B'') r h'))
                    (ensemble_refs h2 b) h2"
  define n2i where "n2i = merge_name_to_id h3 c"
  have m: "merge_concepts str_uuid a b nm h =
      (case copy_links c n2i a [] (ensemble_refs h3 a) h3 of
         (Inl err, h4) \<Rightarrow> (Inl err, h4)
       | (Inr u, h4) \<Rightarrow>
           (case copy_links c n2i b ''__B'' (ensemble_refs h4 b) h4 of
              (Inl err, h5) \<Rightarrow> (Inl err, h5)
            | (Inr u, h5) \<Rightarrow> merge_provenance str_uuid c a b h5))"
    unfolding merge_concepts_def c_def h1_def h2_def h3_def n2i_def
    by (simp only: Let_def case_prod_beta copy_concept_shallow_fields(1))
  have f1: "fresh_build h c h1"
    unfolding c_def h1_def using fresh_build_copy_concept_shallow [of h a nm]
    by (simp add: copy_concept_shallow_fields(1))
  have f2: "fresh_build h c h2"
    unfolding h2_def using f1 by (intro fresh_build_fold fresh_build_copy_ensemble)
  have f3: "fresh_build h c h3"
    unfolding h3_def using f2 by (intro fresh_build_fold fresh_build_copy_ensemble)
  obtain r4 h4 where e4: "copy_links c n2i a [] (ensemble_refs h3 a) h3 = (r4, h4)"
    by (cases "copy_links c n2i a [] (ensemble_refs h3 a) h3")
  have f4: "fresh_build h c h4"
    using fresh_build_copy_links [OF f3, of n2i a "[]" "ensemble_refs h3 a"] e4 by simp
  obtain r5 h5 where e5: "copy_links c n2i b ''__B'' (ensemble_refs h4 b) h4 = (r5, h5)"
    by (cases "copy_links c n2i b ''__B'' (ensemble_refs h4 b) h4")
  have f5: "fresh_build h c h5"
    using fresh_build_copy_links [OF f4, of n2i b "''__B''" "ensemble_refs h4 b"] e5 by simp
  have f7: "fresh_build h c (snd (merge_provenance str_uuid c a b h5))"
    using f5 by (simp add: merge_provenance_def Let_def fresh_build_add_relationship)
  have r7: "case fst (merge_provenance str_uuid c a b h5) of
              Inl err \<Rightarrow> True | Inr (res, delta, nts) \<Rightarrow> res = Some c"
    by (simp add: merge_provenance_def Let_def)
  have "fresh_build h c (snd (merge_concepts str_uuid a b nm h))
   \<and> (case fst (merge_concepts str_uuid a b nm h) of
        Inl err \<Rightarrow> True | Inr (res, delta, nts) \<Rightarrow> res = Some c)"
  proof (cases r4)
    case (Inl err)
    then show ?thesis using f4 by (simp add: m e4)
  next
    case 4: (Inr u)
    show ?thesis
    proof (cases r5)
      case (Inl err)
      then show ?thesis using f5 4 by (simp add: m e4 e5)
    next
      case (Inr v)
      have "merge_concepts str_uuid a b nm h = merge_provenance str_uuid c a b h5"
        using 4 Inr by (simp add: m e4 e5)
      then show ?thesis using f7 r7 by simp
    qed
  qed
  then show ?thesis unfolding c_def .
qed


lemma subtract_concepts_frame:
  "fresh_build h (next_ref h) (snd (subtract_concepts a b nm h))
   \<and> (case fst (subtract_concepts a b nm h) of
        Inl err \<Rightarrow> True | Inr (res, delta, nts) \<Rightarrow> res = Some (next_ref h))"
proof -
  define c where "c = next_ref h"
  define h1 where "h1 = snd (copy_concept_shallow a nm h)"
  define named where "named = map (\<lambda>r. (e_name (ens_heap h1 r), r))
      [r \<leftarrow> ensemble_refs h1 a. e_name (ens_heap h1 r) \<notin> ensemble_name_set h1 b]"
  define n2n where "n2n = fst (copy_named c named h1)"
  define h2 where "h2 = snd (copy_named c named h1)"
  have m: "subtract_concepts a b nm h =
      (case relink c n2n a named h2 of
         (Inl err, h3) \<Rightarrow> (Inl err, h3)
       | (Inr u, h3) \<Rightarrow>
           (Inr (Some c, \<lparr>added = [], removed = []\<rparr>,
                 ''Subtraction created. Relations unchanged (derived concept has none by default).''),
            h3))"
    unfolding subtract_concepts_def c_def h1_def named_def n2n_def h2_def
    by (simp only: Let_def case_prod_beta copy_concept_shallow_fields(1))
  have f1: "fresh_build h c h1"
    unfolding c_def h1_def using fresh_build_copy_concept_shallow [of h a nm]
    by (simp add: copy_concept_shallow_fields(1))
  have f2: "fresh_build h c h2"
    unfolding h2_def using f1 by (rule fresh_build_copy_named)
  obtain r3 h3 where e3: "relink c n2n a named h2 = (r3, h3)"
    by (cases "relink c n2n a named h2")
  have f3: "fresh_build h c h3"
    using fresh_build_relink [OF f2, of n2n a named] e3 by simp
  have "fresh_build h c (snd (subtract_concepts a b nm h))
   \<and> (case fst (subtract_concepts a b nm h) of
        Inl err \<Rightarrow> True | Inr (res, delta, nts) \<Rightarrow> res = Some c)"
    using f3 by (cases r3) (simp_all add: m e3)
  then show ?thesis unfolding c_def .
qed

lemma intersect_concepts_frame:
  "fresh_build h (next_ref h) (snd (intersect_concepts str_uuid parse_uuid str_nat a b nm h))
   \<and> (case fst (intersect_concepts str_uuid parse_uuid str_nat a b nm h) of
        Inl err \<Rightarrow> True | Inr (res, delta, nts) \<Rightarrow> res = Some (next_ref h))"
proof -
  define c where "c = next_ref h"
  define h1 where "h1 = snd (copy_concept_shallow a nm h)"
  define found where "found = concat (map (\<lambda>n. case get_ensemble h1 a n of None \<Rightarrow> []
                                    | Some ea \<Rightarrow> [(n, ea)]) (names_in_both h1 a b))"
  define n2n where "n2n = fst (copy_named c found h1)"
  define h2 where "h2 = snd (copy_named c found h1)"
  define tail :: "heap \<Rightarrow> Result outcome" where "tail = (\<lambda>h3.
      case add_shared_rels parse_uuid c (shared_rels str_uuid h3 a b) h3 of
        (Inl err, h4) \<Rightarrow> (Inl err, h4)
      | (Inr u, h4) \<Rightarrow>
          (Inr (Some c, \<lparr>added = list_relations str_uuid h4 c, removed = []\<rparr>,
                ''Intersection created. Shared ensembles: ''
                  @ str_nat (length (names_in_both h1 a b))
                  @ ''. Shared relations added: '' @ str_nat (length (shared_rels str_uuid h3 a b))
                  @ ''.''),
           h4))"
  have m: "intersect_concepts str_uuid parse_uuid str_nat a b nm h =
      (case relink c n2n a found h2 of
         (Inl err, h3) \<Rightarrow> (Inl err, h3)
       | (Inr u, h3) \<Rightarrow> tail h3)"
    unfolding intersect_concepts_def c_def h1_def found_def n2n_def h2_def tail_def
    by (simp only: Let_def case_prod_beta copy_concept_shallow_fields(1))
  have f1: "fresh_build h c h1"
    unfolding c_def h1_def using fresh_build_copy_concept_shallow [of h a nm]
    by (simp add: copy_concept_shallow_fields(1))
  have f2: "fresh_build h c h2"
    unfolding h2_def using f1 by (rule fresh_build_copy_named)
  obtain r3 h3 where e3: "relink c n2n a found h2 = (r3, h3)"
    by (cases "relink c n2n a found h2")
  have f3: "fresh_build h c h3"
    using fresh_build_relink [OF f2, of n2n a found] e3 by simp
  obtain r4 h4 where e4: "add_shared_rels parse_uuid c (shared_rels str_uuid h3 a b) h3 = (r4, h4)"
    by (cases "add_shared_rels parse_uuid c (shared_rels str_uuid h3 a b) h3")
  have f4: "fresh_build h c h4"
    using fresh_build_add_shared_rels [OF f3, of parse_uuid "shared_rels str_uuid h3 a b"] e4 by simp
  have t: "fresh_build h c (snd (tail h3))
     \<and> (case fst (tail h3) of Inl err \<Rightarrow> True | Inr (res, delta, nts) \<Rightarrow> res = Some c)"
    using f4 by (cases r4) (simp_all add: tail_def e4)
  have "fresh_build h c (snd (intersect_concepts str_uuid parse_uuid str_nat a b nm h))
   \<and> (case fst (intersect_concepts str_uuid parse_uuid str_nat a b nm h) of
        Inl err \<Rightarrow> True | Inr (res, delta, nts) \<Rightarrow> res = Some c)"
    using f3 t by (cases r3) (simp_all add: m e3)
  then show ?thesis unfolding c_def .
qed

text \<open>
  C8. \<^verbatim>\<open>compare_concepts\<close> only reads the store; it returns no concept and an empty
  delta. \<^verbatim>\<open>merge_concepts\<close>, \<^verbatim>\<open>intersect_concepts\<close> and \<^verbatim>\<open>subtract_concepts\<close>
  leave every object that existed before the call as it was (every concept and every
  ensemble at an address below the allocation pointer, so both inputs with their
  ensembles, activations, links, relationships and parameters), also when they raise;
  the concept they return is the object allocated first by the call, and every ensemble
  it holds was allocated by the call.
\<close>

theorem operations_leave_inputs_unchanged:
  "fst (compare_concepts fmt3 h a b) = None
   \<and> fst (snd (compare_concepts fmt3 h a b)) = \<lparr>added = [], removed = []\<rparr>
   \<and> (\<forall>h'. h' = snd (merge_concepts str_uuid a b nm h)
            \<or> h' = snd (intersect_concepts str_uuid parse_uuid str_nat a b nm h)
            \<or> h' = snd (subtract_concepts a b nm h)
        \<longrightarrow> (\<forall>r<next_ref h. ens_heap h' r = ens_heap h r \<and> con_heap h' r = con_heap h r)
          \<and> (\<forall>k x. (k, x) \<in> set (ensembles_by_id (con_heap h' (next_ref h))) \<longrightarrow> next_ref h \<le> x))
   \<and> (\<forall>out res delta nts.
          (out = fst (merge_concepts str_uuid a b nm h)
            \<or> out = fst (intersect_concepts str_uuid parse_uuid str_nat a b nm h)
            \<or> out = fst (subtract_concepts a b nm h))
          \<and> out = Inr (res, delta, nts)
        \<longrightarrow> res = Some (next_ref h))"
proof -
  note M = merge_concepts_frame [of h str_uuid a b nm]
    and I = intersect_concepts_frame [of h str_uuid parse_uuid str_nat a b nm]
    and S = subtract_concepts_frame [of h a b nm]
  have 1: "fst (compare_concepts fmt3 h a b) = None"
    and 2: "fst (snd (compare_concepts fmt3 h a b)) = \<lparr>added = [], removed = []\<rparr>"
    by (simp_all add: compare_concepts_def Let_def)
  have 3: "\<forall>h'. h' = snd (merge_concepts str_uuid a b nm h)
            \<or> h' = snd (intersect_concepts str_uuid parse_uuid str_nat a b nm h)
            \<or> h' = snd (subtract_concepts a b nm h)
        \<longrightarrow> (\<forall>r<next_ref h. ens_heap h' r = ens_heap h r \<and> con_heap h' r = con_heap h r)
          \<and> (\<forall>k x. (k, x) \<in> set (ensembles_by_id (con_heap h' (next_ref h))) \<longrightarrow> next_ref h \<le> x)"
  proof (intro allI impI)
    fix h' assume "h' = snd (merge_concepts str_uuid a b nm h)
            \<or> h' = snd (intersect_concepts str_uuid parse_uuid str_nat a b nm h)
            \<or> h' = snd (subtract_concepts a b nm h)"
    then have f: "fresh_build h (next_ref h) h'" using M I S by blast
    show "(\<forall>r<next_ref h. ens_heap h' r = ens_heap h r \<and> con_heap h' r = con_heap h r)
          \<and> (\<forall>k x. (k, x) \<in> set (ensembles_by_id (con_heap h' (next_ref h))) \<longrightarrow> next_ref h \<le> x)"
      using fresh_buildD(1,2,5) [OF f] by blast
  qed
  have 4: "\<forall>out res delta nts.
          (out = fst (merge_concepts str_uuid a b nm h)
            \<or> out = fst (intersect_concepts str_uuid parse_uuid str_nat a b nm h)
            \<or> out = fst (subtract_concepts a b nm h))
          \<and> out = Inr (res, delta, nts)
        \<longrightarrow> res = Some (next_ref h)"
  proof (intro allI impI)
    fix out :: "py_error + Result" and res delta nts
    assume a: "(out = fst (merge_concepts str_uuid a b nm h)
            \<or> out = fst (intersect_concepts str_uuid parse_uuid str_nat a b nm h)
            \<or> out = fst (subtract_concepts a b nm h))
          \<and> out = Inr (res, delta, nts)"
    then have "case out of Inl err \<Rightarrow> True | Inr (res, delta, nts) \<Rightarrow> res = Some (next_ref h)"
      using M I S by blast
    then show "res = Some (next_ref h)" using a by simp
  qed
  show ?thesis using 1 2 3 4 by (intro conjI)
qed

theorem operations_leave_inputs_unchanged_witness:
  "next_ref merge_heap = 14
   \<and> con_heap (snd (merge_concepts unary 10 11 ''Merged'' merge_heap)) 10 = con_heap merge_heap 10
   \<and> con_heap (snd (merge_concepts unary 10 11 ''Merged'' merge_heap)) 11 = con_heap merge_heap 11
   \<and> ens_heap (snd (merge_concepts unary 10 11 ''Merged'' merge_heap)) 12 = ens_heap merge_heap 12
   \<and> ens_heap (snd (merge_concepts unary 10 11 ''Merged'' merge_heap)) 13 = ens_heap merge_heap 13
   \<and> con_heap (snd (subtract_concepts 11 10 ''B_minus_A'' merge_heap)) 11 = con_heap merge_heap 11
   \<and> ens_heap (snd (subtract_concepts 11 10 ''B_minus_A'' merge_heap)) 12 = ens_heap merge_heap 12"
proof -
  have n: "next_ref merge_heap = 14" by (rule merge_heap_objects)
  have m: "\<forall>r<next_ref merge_heap.
          ens_heap (snd (merge_concepts unary 10 11 ''Merged'' merge_heap)) r = ens_heap merge_heap r
        \<and> con_heap (snd (merge_concepts unary 10 11 ''Merged'' merge_heap)) r = con_heap merge_heap r"
    using operations_leave_inputs_unchanged [of "\<lambda>x. []" merge_heap 10 11 unary "''Merged''" "\<lambda>x. None" "\<lambda>n. []"]
    by blast
  have s: "\<forall>r<next_ref merge_heap.
          ens_heap (snd (subtract_concepts 11 10 ''B_minus_A'' merge_heap)) r = ens_heap merge_heap r
        \<and> con_heap (snd (subtract_concepts 11 10 ''B_minus_A'' merge_heap)) r = con_heap merge_heap r"
    using operations_leave_inputs_unchanged [of "\<lambda>x. []" merge_heap 11 10 unary "''B_minus_A''" "\<lambda>x. None" "\<lambda>n. []"]
    by blast
  show ?thesis using n m s by simp
qed

section \<open>Binding a relation that is already present\<close>

lemma relationships_add_relationship:
  "relationships (con_heap (add_relationship c rt target descr h) c) =
   relationships (con_heap h c) @
     [\<lparr>relation_type = rt, target_concept_id = target, r_description = descr\<rparr>]"
  by (simp add: add_relationship_def upd_con_def)

lemma list_relations_add_relationship:
  "list_relations str_uuid (add_relationship c rt target descr h) c =
   list_relations str_uuid h c @ [(rt, str_uuid target, descr)]"
  by (simp add: list_relations_def relationships_add_relationship)

lemma diff_relations_duplicate:
  assumes "x \<in> set before"
  shows "diff_relations before (before @ [x]) = \<lparr>added = [], removed = []\<rparr>"
proof -
  have "[y \<leftarrow> before @ [x]. y \<notin> set before] = []"
    using assms by (simp add: filter_empty_conv)
  moreover have "[y \<leftarrow> before. y \<notin> set (before @ [x])] = []"
    by (simp add: filter_empty_conv)
  ultimately show ?thesis
    by (simp add: diff_relations_def)
qed

text \<open>
  C9. When concept A already holds an edge with the same relation type, the same target
  (the id of B) and the same description, \<^verbatim>\<open>bind_relation\<close> still appends the edge,
  so A's relationship list grows by one, and the delta it returns has an empty
  \<open>added\<close> list and an empty \<open>removed\<close> list.
\<close>

theorem bind_relation_duplicate_edge:
  assumes "\<lparr>relation_type = rt, target_concept_id = concept_id (con_heap h b),
            r_description = descr\<rparr> \<in> set (relationships (con_heap h a))"
    and "bind_relation str_uuid a b rt descr h = ((res, delta, notes), h')"
  shows "relationships (con_heap h' a) = relationships (con_heap h a) @
           [\<lparr>relation_type = rt, target_concept_id = concept_id (con_heap h b),
             r_description = descr\<rparr>]
       \<and> length (relationships (con_heap h' a)) = Suc (length (relationships (con_heap h a)))
       \<and> added delta = [] \<and> removed delta = [] \<and> res = Some a"
proof -
  let ?t = "concept_id (con_heap h b)"
  let ?h1 = "add_relationship a rt ?t descr h"
  have h': "h' = ?h1" and d: "delta = diff_relations (list_relations str_uuid h a)
      (list_relations str_uuid ?h1 a)" and r: "res = Some a"
    using assms(2) by (auto simp: bind_relation_def Let_def)
  have "(rt, str_uuid ?t, descr) \<in> set (list_relations str_uuid h a)"
    using assms(1) by (force simp: list_relations_def)
  then have "delta = \<lparr>added = [], removed = []\<rparr>"
    unfolding d list_relations_add_relationship by (rule diff_relations_duplicate)
  then show ?thesis
    using h' r by (simp add: relationships_add_relationship)
qed

lemma dog_heap_relationships:
  "relationships (con_heap dog_heap 10) =
     [\<lparr>relation_type = ''IS_A'', target_concept_id = 101, r_description = ''dog is an animal''\<rparr>]"
  by (simp add: dog_heap_def blank_heap_def new_Concept_def uuid4_def add_relationship_def
      upd_con_def Let_def)

lemma dog_heap_animal_id: "concept_id (con_heap dog_heap 11) = 101"
  by (simp add: dog_heap_def blank_heap_def new_Concept_def uuid4_def add_relationship_def
      upd_con_def Let_def)

theorem bind_relation_duplicate_edge_witness:
  "\<lparr>relation_type = ''IS_A'', target_concept_id = concept_id (con_heap dog_heap 11),
     r_description = ''dog is an animal''\<rparr> \<in> set (relationships (con_heap dog_heap 10))
   \<and> (case bind_relation unary 10 11 ''IS_A'' ''dog is an animal'' dog_heap of
        ((res, delta, nts), h') \<Rightarrow>
          length (relationships (con_heap h' 10)) = 2 \<and> added delta = [] \<and> removed delta = [])"
proof -
  have hyp: "\<lparr>relation_type = ''IS_A'', target_concept_id = concept_id (con_heap dog_heap 11),
              r_description = ''dog is an animal''\<rparr> \<in> set (relationships (con_heap dog_heap 10))"
    by (simp add: dog_heap_relationships dog_heap_animal_id)
  obtain res delta nts h' where
    eq: "bind_relation unary 10 11 ''IS_A'' ''dog is an animal'' dog_heap = ((res, delta, nts), h')"
    by (metis prod_cases3 surj_pair)
  from bind_relation_duplicate_edge [OF hyp eq] show ?thesis
    using hyp eq by (simp add: dog_heap_relationships)
qed

section \<open>The keys of the weight map\<close>

lemma weights_add_units: "weights (add_units keys s) = weights s"
  unfolding add_units_def by (induction keys arbitrary: s) simp_all

lemma weights_schedule_spike: "weights (schedule_spike t key strength s) = weights s"
  by (simp add: schedule_spike_def Let_def)

lemma weights_schedule_pattern: "weights (schedule_pattern spikes s) = weights s"
  unfolding schedule_pattern_def
proof (induction spikes arbitrary: s)
  case Nil show ?case by simp
next
  case (Cons sp spikes)
  obtain t k st where sp: "sp = (t, k, st)" by (cases sp)
  show ?case unfolding sp by (simp add: Cons weights_schedule_spike)
qed

lemma ordered_keys_step:
  assumes "ordered_keys (weights s)"
  shows "ordered_keys (weights (snd (activate_step dt s)))"
proof -
  let ?fk = "fired_keys (t_now s) (step_end dt s) (scheduled s)"
  let ?ws1 = "decay_weights (decay s) (weights s)"
  have d: "distinct (map fst (weights s))" using assms by (simp add: ordered_keys_def)
  have keys: "pair_key ` set (index_pairs ?fk) = {(a, b). a \<in> set ?fk \<and> b \<in> set ?fk \<and> a < b}"
    by (rule pair_keys_index_pairs) (rule distinct_fired_keys)
  have "\<forall>k \<in> fst ` set (weights (snd (activate_step dt s))). fst k < snd k"
  proof
    fix k assume "k \<in> fst ` set (weights (snd (activate_step dt s)))"
    then have "k \<in> pair_key ` set (index_pairs ?fk) \<or> k \<in> fst ` set ?ws1"
      unfolding activate_step_weights keys_fold_hebb by simp
    then show "fst k < snd k"
    proof
      assume "k \<in> pair_key ` set (index_pairs ?fk)"
      then show ?thesis unfolding keys by (simp add: case_prod_beta)
    next
      assume "k \<in> fst ` set ?ws1"
      then have "k \<in> fst ` set (weights s)" using keys_decay_weights by blast
      then show ?thesis using assms unfolding ordered_keys_def by blast
    qed
  qed
  moreover have "distinct (map fst (weights (snd (activate_step dt s))))"
    unfolding activate_step_weights
    by (intro distinct_fold_hebb distinct_decay_weights d)
  ultimately show ?thesis by (simp add: ordered_keys_def)
qed

lemma rt_reachable_ordered: "rt_reachable s \<Longrightarrow> ordered_keys (weights s)"
proof (induction rule: rt_reachable.induct)
  case (rt_fresh nm us tags reg eta dec mw)
  show ?case by (simp add: new_CellEnsembleRT_def ordered_keys_def)
next
  case (rt_add_units s keys)
  then show ?case by (simp add: weights_add_units)
next
  case (rt_schedule_spike s t key strength)
  then show ?case by (simp add: weights_schedule_spike)
next
  case (rt_schedule_pattern s spikes)
  then show ?case by (simp add: weights_schedule_pattern)
next
  case (rt_activate_step s dt)
  from rt_activate_step.IH show ?case by (rule ordered_keys_step)
qed

lemma cofire_scheduled:
  "scheduled cofire = [(5 / 100, [(''y'', 1), (''x'', 1)])]" "t_now cofire = 0"
  "weights cofire = []" "decay cofire = 999 / 1000" "max_weight cofire = 1"
  "eta_hebb cofire = 2 / 100" "registry cofire = None"
  by (simp_all add: cofire_def schedule_pattern_def schedule_spike_def new_CellEnsembleRT_def Let_def)

lemma cofire_step_weights:
  "weights (snd (activate_step (Some (1 / 10)) cofire)) = [((''x'', ''y''), 2 / 100)]"
  by (simp add: activate_step_weights fired_keys_def cofire_scheduled step_end_def due_def
      set_add_def decay_weights_def hebb_update_def hebb_increment_def pair_key_def
      get_default_def Let_def)

text \<open>
  C10. In every runtime ensemble reachable from a fresh instance by \<^verbatim>\<open>add_units\<close>,
  \<^verbatim>\<open>schedule_spike\<close>, \<^verbatim>\<open>schedule_pattern\<close> and \<^verbatim>\<open>activate_step\<close>, every key
  \<open>(a, b)\<close> of the weight map has \<open>a < b\<close> in the order of strings: there is no key
  \<open>(a, a)\<close>, never both \<open>(a, b)\<close> and \<open>(b, a)\<close>, every key occurs once, and the two
  orders of a pair are written to the same key.
\<close>

theorem weight_keys_strictly_ordered:
  assumes "rt_reachable s"
  shows "(\<forall>a b. (a, b) \<in> fst ` set (weights s) \<longrightarrow> a < b)
       \<and> (\<forall>a. (a, a) \<notin> fst ` set (weights s))
       \<and> (\<forall>a b. (a, b) \<in> fst ` set (weights s) \<longrightarrow> (b, a) \<notin> fst ` set (weights s))
       \<and> distinct (map fst (weights s))
       \<and> (\<forall>a b. a \<noteq> b \<longrightarrow> pair_key (a, b) = pair_key (b, a))"
proof -
  have o: "\<forall>k \<in> fst ` set (weights s). fst k < snd k" and d: "distinct (map fst (weights s))"
    using rt_reachable_ordered [OF assms] by (simp_all add: ordered_keys_def)
  have 1: "\<forall>a b. (a, b) \<in> fst ` set (weights s) \<longrightarrow> a < b"
  proof (intro allI impI)
    fix a b assume "(a, b) \<in> fst ` set (weights s)"
    with o have "fst (a, b) < snd (a, b)" by (rule bspec)
    then show "a < b" by simp
  qed
  have 2: "\<forall>a. (a, a) \<notin> fst ` set (weights s)"
  proof
    fix a show "(a, a) \<notin> fst ` set (weights s)"
    proof
      assume "(a, a) \<in> fst ` set (weights s)"
      with 1 have "a < a" by blast
      then show False by simp
    qed
  qed
  have 3: "\<forall>a b. (a, b) \<in> fst ` set (weights s) \<longrightarrow> (b, a) \<notin> fst ` set (weights s)"
  proof (intro allI impI notI)
    fix a b assume "(a, b) \<in> fst ` set (weights s)" "(b, a) \<in> fst ` set (weights s)"
    with 1 have "a < b" "b < a" by blast+
    then show False by (rule less_asym)
  qed
  have 4: "\<forall>a b. a \<noteq> b \<longrightarrow> pair_key (a, b) = pair_key (b, a)"
    by (simp add: pair_key_swap)
  show ?thesis using 1 2 3 d 4 by (intro conjI)
qed

theorem weight_keys_strictly_ordered_witness:
  "rt_reachable (snd (activate_step (Some (1 / 10)) cofire))
   \<and> weights (snd (activate_step (Some (1 / 10)) cofire)) = [((''x'', ''y''), 2 / 100)]
   \<and> ''x'' < ''y''
   \<and> (''y'', ''x'') \<notin> fst ` set (weights (snd (activate_step (Some (1 / 10)) cofire)))
   \<and> distinct (map fst (weights (snd (activate_step (Some (1 / 10)) cofire))))"
proof -
  let ?s = "snd (activate_step (Some (1 / 10)) cofire)"
  have r: "rt_reachable ?s"
    unfolding cofire_def by (intro rt_reachable.intros)
  have k: "(''x'', ''y'') \<in> fst ` set (weights ?s)"
    by (simp add: cofire_step_weights)
  from weight_keys_strictly_ordered [OF r] have
    a: "\<forall>a b. (a, b) \<in> fst ` set (weights ?s) \<longrightarrow> a < b" and
    b: "\<forall>a b. (a, b) \<in> fst ` set (weights ?s) \<longrightarrow> (b, a) \<notin> fst ` set (weights ?s)" and
    d: "distinct (map fst (weights ?s))"
    by blast+
  from a k have "''x'' < ''y''" by blast
  moreover from b k have "(''y'', ''x'') \<notin> fst ` set (weights ?s)" by blast
  ultimately show ?thesis using r d cofire_step_weights by blast
qed

end
